theory Spec2Isabelle
  imports Complex_Main "HOL-Library.Multiset" "HOL-Library.Sublist" "HOL-Library.Log_Nat"
    "HOL-Library.Product_Lexorder"
begin

section \<open>Python values used by the evaluator\<close>

subsection \<open>Floats\<close>

text \<open>
  A Python \<^verbatim>\<open>float\<close> is an IEEE binary64 number. A finite one is represented by its exact
  rational value; the configured threshold may also be an infinity or a NaN.
\<close>

datatype pyfloat = Finite rat | PosInf | NegInf | NaN

text \<open>\<^verbatim>\<open>x >= t\<close> for a finite float \<^verbatim>\<open>x\<close>: every comparison with a NaN is false.\<close>

fun float_ge :: "rat \<Rightarrow> pyfloat \<Rightarrow> bool" where
  "float_ge x (Finite t) = (t \<le> x)"
| "float_ge x PosInf = False"
| "float_ge x NegInf = True"
| "float_ge x NaN = False"

text \<open>\<^verbatim>\<open>t <= x\<close> for a finite float \<^verbatim>\<open>x\<close>.\<close>

fun float_le :: "pyfloat \<Rightarrow> rat \<Rightarrow> bool" where
  "float_le (Finite t) x = (t \<le> x)"
| "float_le PosInf x = False"
| "float_le NegInf x = True"
| "float_le NaN x = False"

text \<open>Rounding a rational to the nearest integer, ties to the even one.\<close>

definition round_half_even :: "rat \<Rightarrow> int" where
  "round_half_even q =
     (let f = \<lfloor>q\<rfloor>; r = q - of_int f
      in if r < 1 / 2 then f else if 1 / 2 < r then f + 1 else if even f then f else f + 1)"

text \<open>The binary exponent of a positive rational: the \<open>e\<close> with \<open>2^e \<le> q < 2^(e+1)\<close>.\<close>

definition ilog2 :: "rat \<Rightarrow> int" where
  "ilog2 q =
     (let d = bitlen (fst (quotient_of q)) - bitlen (snd (quotient_of q))
      in if 2 powi d \<le> q then d else d - 1)"

text \<open>
  Rounding to binary64, round-to-nearest, ties-to-even: 53 significant bits, the unit in
  the last place never below \<open>2^-1074\<close>. Overflow to an infinity (magnitudes from \<open>2^1024\<close>)
  is left out: every number rounded below lies between 0 and twice a list length.
\<close>

definition fl :: "rat \<Rightarrow> rat" where
  "fl q =
     (if q = 0 then 0
      else let u = 2 powi (max (ilog2 \<bar>q\<bar>) (- 1022) - 52)
           in sgn q * of_int (round_half_even (\<bar>q\<bar> / u)) * u)"

text \<open>
  \<^verbatim>\<open>round(x, ndigits)\<close> on a float: the decimal with \<^verbatim>\<open>ndigits\<close> places nearest to the exact
  value of \<^verbatim>\<open>x\<close> (ties to even), converted back to the nearest float.
\<close>

definition py_round :: "rat \<Rightarrow> nat \<Rightarrow> rat" where
  "py_round x ndigits = fl (of_int (round_half_even (x * 10 ^ ndigits)) / 10 ^ ndigits)"

subsection \<open>Exceptions\<close>

datatype py_error = ValueError | ZeroDivisionError

text \<open>\<^verbatim>\<open>a / b\<close> on two non-negative ints: the correctly rounded quotient.\<close>

definition py_truediv :: "nat \<Rightarrow> nat \<Rightarrow> py_error + rat" where
  "py_truediv a b = (if b = 0 then Inl ZeroDivisionError else Inr (fl (of_nat a / of_nat b)))"

text \<open>\<^verbatim>\<open>xs.remove(x)\<close>: drops the first element equal to \<^verbatim>\<open>x\<close>, raises when there is none.
  The argument is an optional label because the caller's variable starts as \<^verbatim>\<open>None\<close>,
  which is never an element of a list of labels.\<close>

fun list_remove :: "'a list \<Rightarrow> 'a option \<Rightarrow> py_error + 'a list" where
  "list_remove [] x = Inl ValueError"
| "list_remove (y # ys) x =
     (if Some y = x then Inr ys
      else case list_remove ys x of Inl e \<Rightarrow> Inl e | Inr zs \<Rightarrow> Inr (y # zs))"

section \<open>The standard library's \<^verbatim>\<open>difflib.SequenceMatcher\<close>\<close>

text \<open>
  \<^verbatim>\<open>_is_match\<close> builds \<^verbatim>\<open>SequenceMatcher(None, a, b)\<close> and asks for its \<^verbatim>\<open>ratio()\<close>. The
  matcher is transcribed here for \<^verbatim>\<open>isjunk = None\<close> and \<^verbatim>\<open>autojunk = True\<close>, the values
  this call gives it. Sequences are lists over any element type \<open>'c\<close> (the code points of
  a Python string); indices and sizes are naturals.
\<close>

text \<open>\<^verbatim>\<open>b2j.setdefault(elt, []).append(i)\<close> on an insertion-ordered dict.\<close>

fun setdefault_append :: "'c \<Rightarrow> nat \<Rightarrow> ('c \<times> nat list) list \<Rightarrow> ('c \<times> nat list) list" where
  "setdefault_append elt i [] = [(elt, [i])]"
| "setdefault_append elt i ((key, indices) # d) =
     (if key = elt then (key, indices @ [i]) # d
      else (key, indices) # setdefault_append elt i d)"

text \<open>
  \<^verbatim>\<open>__chain_b\<close>: the positions of every element of \<^verbatim>\<open>b\<close>; no junk (\<^verbatim>\<open>isjunk\<close> is \<^verbatim>\<open>None\<close>);
  for 200 elements or more, the elements occurring more than \<^verbatim>\<open>n // 100 + 1\<close> times
  are dropped as popular. The result is \<^verbatim>\<open>b2j\<close> and the list of junk elements.
\<close>

definition chain_b :: "'c list \<Rightarrow> ('c \<times> nat list) list \<times> 'c list" where
  "chain_b b =
     (let b2j = fold (\<lambda>(i, elt) d. setdefault_append elt i d) (enumerate 0 b) [];
          junk = [];
          n = length b
      in if 200 \<le> n then
           let ntest = n div 100 + 1;
               popular = map fst (filter (\<lambda>(elt, idxs). ntest < length idxs) b2j)
           in (filter (\<lambda>(elt, idxs). elt \<notin> set popular) b2j, junk)
         else (b2j, junk))"

text \<open>\<^verbatim>\<open>b2j.get(x, nothing)\<close> with \<^verbatim>\<open>nothing = []\<close>.\<close>

definition b2j_get :: "('c \<times> nat list) list \<Rightarrow> 'c \<Rightarrow> nat list" where
  "b2j_get b2j x = (case map_of b2j x of None \<Rightarrow> [] | Some idxs \<Rightarrow> idxs)"

text \<open>
  The inner loop of \<^verbatim>\<open>find_longest_match\<close> over the positions \<^verbatim>\<open>j\<close> of \<^verbatim>\<open>a[i]\<close> in \<^verbatim>\<open>b\<close>,
  with its \<^verbatim>\<open>continue\<close> and \<^verbatim>\<open>break\<close>. The dict \<^verbatim>\<open>j2len\<close> has integer keys, since it is
  read at \<^verbatim>\<open>j - 1\<close>, which is \<open>-1\<close> for \<^verbatim>\<open>j = 0\<close>. \<^verbatim>\<open>i-k+1\<close> is written \<open>i + 1 - k\<close>
  (\<open>k\<close> never exceeds \<open>i + 1\<close>, see \<open>inner_loop_ok\<close>).
\<close>

fun inner_loop ::
  "nat \<Rightarrow> nat \<Rightarrow> (int \<rightharpoonup> nat) \<Rightarrow> nat \<Rightarrow> nat list \<Rightarrow>
   (int \<rightharpoonup> nat) \<times> (nat \<times> nat \<times> nat) \<Rightarrow> (int \<rightharpoonup> nat) \<times> (nat \<times> nat \<times> nat)" where
  "inner_loop blo bhi j2len i [] (newj2len, best) = (newj2len, best)"
| "inner_loop blo bhi j2len i (j # js) (newj2len, (besti, bestj, bestsize)) =
     (if j < blo then inner_loop blo bhi j2len i js (newj2len, (besti, bestj, bestsize))
      else if bhi \<le> j then (newj2len, (besti, bestj, bestsize))
      else let k = (case j2len (int j - 1) of None \<Rightarrow> 0 | Some v \<Rightarrow> v) + 1
           in inner_loop blo bhi j2len i js
                (newj2len(int j \<mapsto> k),
                 if bestsize < k then (i + 1 - k, j + 1 - k, k) else (besti, bestj, bestsize)))"

text \<open>The loop \<^verbatim>\<open>for i in range(alo, ahi)\<close>.\<close>

fun outer_loop ::
  "'c list \<Rightarrow> ('c \<times> nat list) list \<Rightarrow> nat \<Rightarrow> nat \<Rightarrow> nat list \<Rightarrow>
   (int \<rightharpoonup> nat) \<times> (nat \<times> nat \<times> nat) \<Rightarrow> nat \<times> nat \<times> nat" where
  "outer_loop a b2j blo bhi [] (j2len, best) = best"
| "outer_loop a b2j blo bhi (i # is) (j2len, best) =
     outer_loop a b2j blo bhi is
       (inner_loop blo bhi j2len i (b2j_get b2j (a ! i)) (Map.empty, best))"

text \<open>
  The four \<^verbatim>\<open>while\<close> loops that extend the best match to the left and to the right. \<open>p\<close>
  is the loop's test on the element of \<^verbatim>\<open>b\<close>: \<^verbatim>\<open>not isbjunk(...)\<close> in the first two
  loops, \<^verbatim>\<open>isbjunk(...)\<close> in the last two.
\<close>

function extend_left ::
  "('c \<Rightarrow> bool) \<Rightarrow> 'c list \<Rightarrow> 'c list \<Rightarrow> nat \<Rightarrow> nat \<Rightarrow> nat \<times> nat \<times> nat \<Rightarrow> nat \<times> nat \<times> nat" where
  "extend_left p a b alo blo (besti, bestj, bestsize) =
     (if alo < besti \<and> blo < bestj \<and> p (b ! (bestj - 1)) \<and> a ! (besti - 1) = b ! (bestj - 1)
      then extend_left p a b alo blo (besti - 1, bestj - 1, bestsize + 1)
      else (besti, bestj, bestsize))"
  by pat_completeness auto
termination
  by (relation "measure (\<lambda>(p, a, b, alo, blo, besti, bestj, bestsize). besti)") auto

function extend_right ::
  "('c \<Rightarrow> bool) \<Rightarrow> 'c list \<Rightarrow> 'c list \<Rightarrow> nat \<Rightarrow> nat \<Rightarrow> nat \<times> nat \<times> nat \<Rightarrow> nat \<times> nat \<times> nat" where
  "extend_right p a b ahi bhi (besti, bestj, bestsize) =
     (if besti + bestsize < ahi \<and> bestj + bestsize < bhi \<and> p (b ! (bestj + bestsize))
         \<and> a ! (besti + bestsize) = b ! (bestj + bestsize)
      then extend_right p a b ahi bhi (besti, bestj, bestsize + 1)
      else (besti, bestj, bestsize))"
  by pat_completeness auto
termination
  by (relation "measure (\<lambda>(p, a, b, ahi, bhi, besti, bestj, bestsize). ahi - (besti + bestsize))")
    auto

definition isbjunk :: "'c list \<Rightarrow> 'c \<Rightarrow> bool" where
  "isbjunk bjunk x = (x \<in> set bjunk)"

definition find_longest_match ::
  "'c list \<Rightarrow> 'c list \<Rightarrow> ('c \<times> nat list) list \<times> 'c list \<Rightarrow>
   nat \<Rightarrow> nat \<Rightarrow> nat \<Rightarrow> nat \<Rightarrow> nat \<times> nat \<times> nat" where
  "find_longest_match a b chain alo ahi blo bhi =
     (let b2j = fst chain; bjunk = snd chain;
          best = outer_loop a b2j blo bhi [alo..<ahi] (Map.empty, (alo, blo, 0));
          best = extend_left (\<lambda>x. \<not> isbjunk bjunk x) a b alo blo best;
          best = extend_right (\<lambda>x. \<not> isbjunk bjunk x) a b ahi bhi best;
          best = extend_left (isbjunk bjunk) a b alo blo best;
          best = extend_right (isbjunk bjunk) a b ahi bhi best
      in best)"

declare extend_left.simps [simp del] extend_right.simps [simp del]

text \<open>
  Invariants of \<^verbatim>\<open>find_longest_match\<close>: while row \<open>i\<close> is scanned, every entry of
  \<^verbatim>\<open>j2len\<close> lies inside the window of \<^verbatim>\<open>b\<close> and is no longer than the part of the two
  windows before it; the best match is the initial empty one or lies inside both windows.
\<close>

definition row_ok :: "nat \<Rightarrow> nat \<Rightarrow> nat \<Rightarrow> nat \<Rightarrow> (int \<rightharpoonup> nat) \<Rightarrow> bool" where
  "row_ok alo blo bhi i j2len =
     (\<forall>j v. j2len j = Some v \<longrightarrow> int blo \<le> j \<and> j < int bhi \<and> int v \<le> j + 1 - int blo \<and> v + alo \<le> i)"

definition best_ok :: "nat \<Rightarrow> nat \<Rightarrow> nat \<Rightarrow> nat \<Rightarrow> nat \<times> nat \<times> nat \<Rightarrow> bool" where
  "best_ok alo ahi blo bhi best =
     (case best of (besti, bestj, bestsize) \<Rightarrow>
        alo \<le> besti \<and> blo \<le> bestj \<and>
        ((besti = alo \<and> bestj = blo \<and> bestsize = 0) \<or>
         (besti + bestsize \<le> ahi \<and> bestj + bestsize \<le> bhi)))"

lemma inner_loop_ok:
  assumes "row_ok alo blo bhi i j2len" "row_ok alo blo bhi (Suc i) newj2len"
    "best_ok alo ahi blo bhi best" "alo \<le> i" "i < ahi"
  shows "row_ok alo blo bhi (Suc i) (fst (inner_loop blo bhi j2len i js (newj2len, best)))
       \<and> best_ok alo ahi blo bhi (snd (inner_loop blo bhi j2len i js (newj2len, best)))"
  using assms
proof (induction js arbitrary: newj2len best)
  case Nil
  then show ?case by simp
next
  case (Cons j js)
  obtain besti bestj bestsize where best: "best = (besti, bestj, bestsize)"
    by (cases best) auto
  show ?case
  proof (cases "j < blo \<or> bhi \<le> j")
    case True
    then show ?thesis using Cons best by auto
  next
    case False
    define k where "k = (case j2len (int j - 1) of None \<Rightarrow> 0 | Some v \<Rightarrow> v) + 1"
    have k12: "int k \<le> int j + 1 - int blo \<and> k + alo \<le> Suc i"
    proof (cases "j2len (int j - 1)")
      case None
      then show ?thesis using False Cons.prems(4) by (simp add: k_def)
    next
      case (Some v)
      then have "int v \<le> (int j - 1) + 1 - int blo \<and> v + alo \<le> i"
        using Cons.prems(1) unfolding row_ok_def by blast
      then show ?thesis using Some by (simp add: k_def)
    qed
    have r: "row_ok alo blo bhi (Suc i) (newj2len(int j \<mapsto> k))"
      unfolding row_ok_def
    proof (intro allI impI)
      fix jj v assume h: "(newj2len(int j \<mapsto> k)) jj = Some v"
      show "int blo \<le> jj \<and> jj < int bhi \<and> int v \<le> jj + 1 - int blo \<and> v + alo \<le> Suc i"
      proof (cases "jj = int j")
        case True
        then show ?thesis using h k12 False by simp
      next
        case False
        then have "newj2len jj = Some v" using h by simp
        then show ?thesis using Cons.prems(2) unfolding row_ok_def by blast
      qed
    qed
    have b: "best_ok alo ahi blo bhi (if bestsize < k then (i + 1 - k, j + 1 - k, k) else (besti, bestj, bestsize))"
    proof (cases "bestsize < k")
      case True
      have "alo \<le> i + 1 - k" "blo \<le> j + 1 - k" "i + 1 - k + k \<le> ahi" "j + 1 - k + k \<le> bhi"
        using k12 False Cons.prems(5) by linarith+
      then show ?thesis using True by (simp add: best_ok_def)
    next
      case False
      then show ?thesis using Cons.prems(3) best by simp
    qed
    have step: "inner_loop blo bhi j2len i (j # js) (newj2len, best) =
          inner_loop blo bhi j2len i js (newj2len(int j \<mapsto> k),
             if bestsize < k then (i + 1 - k, j + 1 - k, k) else (besti, bestj, bestsize))"
      using False best by (simp add: k_def Let_def)
    show ?thesis
      unfolding step by (rule Cons.IH[OF Cons.prems(1) r b Cons.prems(4,5)])
  qed
qed

lemma outer_loop_ok:
  assumes "row_ok alo blo bhi i j2len" "best_ok alo ahi blo bhi best" "alo \<le> i"
  shows "best_ok alo ahi blo bhi (outer_loop a b2j blo bhi [i..<ahi] (j2len, best))"
  using assms
proof (induction "ahi - i" arbitrary: i j2len best)
  case 0
  then show ?case by simp
next
  case (Suc n)
  then have lt: "i < ahi" by simp
  have e: "row_ok alo blo bhi (Suc i) Map.empty" by (simp add: row_ok_def)
  note s = inner_loop_ok[OF Suc.prems(1) e Suc.prems(2,3) lt, of "b2j_get b2j (a ! i)"]
  obtain n' b' where il: "inner_loop blo bhi j2len i (b2j_get b2j (a ! i)) (Map.empty, best) = (n', b')"
    by (cases "inner_loop blo bhi j2len i (b2j_get b2j (a ! i)) (Map.empty, best)") auto
  have "best_ok alo ahi blo bhi (outer_loop a b2j blo bhi [Suc i..<ahi] (n', b'))"
    using Suc.hyps(1)[of "Suc i" n' b'] Suc.hyps(2) s il Suc.prems(3) by auto
  then show ?case using lt il by (simp add: upt_conv_Cons)
qed

lemma extend_left_ok:
  "best_ok alo ahi blo bhi best \<Longrightarrow> best_ok alo ahi blo bhi (extend_left p a b alo blo best)"
proof (induction p a b alo blo best rule: extend_left.induct)
  case (1 p a b alo blo besti bestj bestsize)
  show ?case
  proof (cases "alo < besti \<and> blo < bestj \<and> p (b ! (bestj - 1)) \<and> a ! (besti - 1) = b ! (bestj - 1)")
    case True
    have "best_ok alo ahi blo bhi (besti - 1, bestj - 1, bestsize + 1)"
      using "1.prems" True by (simp add: best_ok_def) linarith
    then have "best_ok alo ahi blo bhi (extend_left p a b alo blo (besti - 1, bestj - 1, bestsize + 1))"
      using "1.IH" True by blast
    then show ?thesis using True by (subst extend_left.simps) simp
  next
    case False
    then have "extend_left p a b alo blo (besti, bestj, bestsize) = (besti, bestj, bestsize)"
      by (subst extend_left.simps) auto
    then show ?thesis using "1.prems" by simp
  qed
qed

lemma extend_right_ok:
  "best_ok alo ahi blo bhi best \<Longrightarrow> best_ok alo ahi blo bhi (extend_right p a b ahi bhi best)"
proof (induction p a b ahi bhi best rule: extend_right.induct)
  case (1 p a b ahi bhi besti bestj bestsize)
  show ?case
  proof (cases "besti + bestsize < ahi \<and> bestj + bestsize < bhi \<and> p (b ! (bestj + bestsize))
         \<and> a ! (besti + bestsize) = b ! (bestj + bestsize)")
    case True
    have "best_ok alo ahi blo bhi (besti, bestj, bestsize + 1)"
      using "1.prems" True by (simp add: best_ok_def)
    then have "best_ok alo ahi blo bhi (extend_right p a b ahi bhi (besti, bestj, bestsize + 1))"
      using "1.IH" True by blast
    then show ?thesis using True by (subst extend_right.simps) simp
  next
    case False
    then have "extend_right p a b ahi bhi (besti, bestj, bestsize) = (besti, bestj, bestsize)"
      by (subst extend_right.simps) auto
    then show ?thesis using "1.prems" by simp
  qed
qed

lemma find_longest_match_ok:
  "best_ok alo ahi blo bhi (find_longest_match a b chain alo ahi blo bhi)"
proof -
  have b0: "best_ok alo ahi blo bhi (alo, blo, 0)" by (simp add: best_ok_def)
  have r0: "row_ok alo blo bhi alo Map.empty" by (simp add: row_ok_def)
  show ?thesis
    unfolding find_longest_match_def Let_def
    by (intro extend_right_ok extend_left_ok outer_loop_ok[OF r0 b0]) simp
qed

lemma find_longest_match_range:
  assumes "find_longest_match a b chain alo ahi blo bhi = (i, j, k)" "k \<noteq> 0"
  shows "alo \<le> i \<and> i + k \<le> ahi \<and> blo \<le> j \<and> j + k \<le> bhi"
proof -
  have "best_ok alo ahi blo bhi (i, j, k)"
    using find_longest_match_ok[of alo ahi blo bhi a b chain] assms(1) by simp
  then show ?thesis using assms(2) by (simp add: best_ok_def)
qed


text \<open>
  The loop of \<^verbatim>\<open>get_matching_blocks\<close>. The Python list \<^verbatim>\<open>queue\<close> is used as a stack
  (\<^verbatim>\<open>pop()\<close> takes its last element); here the top of the stack is the head of the list.
\<close>

function blocks_loop ::
  "'c list \<Rightarrow> 'c list \<Rightarrow> ('c \<times> nat list) list \<times> 'c list \<Rightarrow>
   (nat \<times> nat \<times> nat \<times> nat) list \<Rightarrow> (nat \<times> nat \<times> nat) list \<Rightarrow> (nat \<times> nat \<times> nat) list" where
  "blocks_loop a b chain [] matching_blocks = matching_blocks"
| "blocks_loop a b chain ((alo, ahi, blo, bhi) # queue) matching_blocks =
     (case find_longest_match a b chain alo ahi blo bhi of (i, j, k) \<Rightarrow>
        if k \<noteq> 0 then
          blocks_loop a b chain
            ((if i + k < ahi \<and> j + k < bhi then [(i + k, ahi, j + k, bhi)] else []) @
             (if alo < i \<and> blo < j then [(alo, i, blo, j)] else []) @ queue)
            (matching_blocks @ [(i, j, k)])
        else blocks_loop a b chain queue matching_blocks)"
  by pat_completeness auto
termination
proof (relation "measure (\<lambda>(a, b, chain, queue, matching_blocks).
          sum_list (map (\<lambda>(alo, ahi, blo, bhi). (ahi - alo) + (bhi - blo) + 1) queue))",
       goal_cases)
  case 1
  show ?case by simp
next
  case (2 a b chain alo ahi blo bhi queue matching_blocks i y j k)
  then have "find_longest_match a b chain alo ahi blo bhi = (i, j, k)" by simp
  from find_longest_match_range[OF this] 2(3)
  have "alo \<le> i \<and> i + k \<le> ahi \<and> blo \<le> j \<and> j + k \<le> bhi \<and> 0 < k" by simp
  then show ?case by auto
next
  case 3
  then show ?case by simp
qed

text \<open>The loop that collapses adjacent blocks, started with \<^verbatim>\<open>i1 = j1 = k1 = 0\<close>.\<close>

fun collapse ::
  "(nat \<times> nat \<times> nat) list \<Rightarrow> nat \<times> nat \<times> nat \<Rightarrow> (nat \<times> nat \<times> nat) list \<Rightarrow>
   (nat \<times> nat \<times> nat) list" where
  "collapse [] (i1, j1, k1) non_adjacent =
     (if k1 \<noteq> 0 then non_adjacent @ [(i1, j1, k1)] else non_adjacent)"
| "collapse ((i2, j2, k2) # rest) (i1, j1, k1) non_adjacent =
     (if i1 + k1 = i2 \<and> j1 + k1 = j2 then collapse rest (i1, j1, k1 + k2) non_adjacent
      else collapse rest (i2, j2, k2)
             (if k1 \<noteq> 0 then non_adjacent @ [(i1, j1, k1)] else non_adjacent))"

definition get_matching_blocks ::
  "'c list \<Rightarrow> 'c list \<Rightarrow> ('c \<times> nat list) list \<times> 'c list \<Rightarrow> (nat \<times> nat \<times> nat) list" where
  "get_matching_blocks a b chain =
     (let la = length a; lb = length b;
          matching_blocks = sort (blocks_loop a b chain [(0, la, 0, lb)] []);
          non_adjacent = collapse matching_blocks (0, 0, 0) []
      in non_adjacent @ [(la, lb, 0)])"

text \<open>
  \<^verbatim>\<open>_calculate_ratio\<close>: \<^verbatim>\<open>2.0 * matches / length\<close> converts both ints to floats and rounds
  the product and the quotient.
\<close>

definition calculate_ratio :: "nat \<Rightarrow> nat \<Rightarrow> rat" where
  "calculate_ratio matches len =
     (if len \<noteq> 0 then fl (fl (2 * fl (of_nat matches)) / fl (of_nat len)) else 1)"

text \<open>\<^verbatim>\<open>SequenceMatcher(None, a, b).ratio()\<close>.\<close>

definition ratio :: "'c list \<Rightarrow> 'c list \<Rightarrow> rat" where
  "ratio a b =
     (let matches = sum_list (map (\<lambda>(i, j, size). size) (get_matching_blocks a b (chain_b b)))
      in calculate_ratio matches (length a + length b))"

section \<open>The evaluator\<close>

text \<open>
  \<^verbatim>\<open>BPMNEvaluator\<close> holds the threshold. A label is a Python string, a list of code
  points of any type \<open>'c\<close>; \<^verbatim>\<open>str.lower\<close>, a table of the Unicode database, is the
  parameter \<open>lower\<close> of every function below.
\<close>

record BPMNEvaluator =
  threshold :: pyfloat

definition is_match :: "('c list \<Rightarrow> 'c list) \<Rightarrow> BPMNEvaluator \<Rightarrow> 'c list \<Rightarrow> 'c list \<Rightarrow> bool" where
  "is_match lower self str1 str2 = float_ge (ratio (lower str1) (lower str2)) (threshold self)"

text \<open>
  The inner loop of \<^verbatim>\<open>calculate_metrics\<close>, \<^verbatim>\<open>for gt in remaining_gt\<close> with its \<^verbatim>\<open>break\<close>:
  the final \<^verbatim>\<open>match_found\<close> and \<^verbatim>\<open>matched_gt\<close>.
\<close>

fun scan_remaining :: "('s \<Rightarrow> 's \<Rightarrow> bool) \<Rightarrow> 's \<Rightarrow> 's list \<Rightarrow> bool \<times> 's option" where
  "scan_remaining match extracted [] = (False, None)"
| "scan_remaining match extracted (gt # rest) =
     (if match extracted gt then (True, Some gt) else scan_remaining match extracted rest)"

text \<open>
  The loop \<^verbatim>\<open>for extracted in extracted_list\<close> on the three lists \<^verbatim>\<open>true_positives\<close>,
  \<^verbatim>\<open>false_positives\<close> and \<^verbatim>\<open>remaining_gt\<close>.
\<close>

fun match_loop ::
  "('s \<Rightarrow> 's \<Rightarrow> bool) \<Rightarrow> 's list \<Rightarrow> 's list \<times> 's list \<times> 's list \<Rightarrow>
   py_error + 's list \<times> 's list \<times> 's list" where
  "match_loop match [] state = Inr state"
| "match_loop match (extracted # rest) (true_positives, false_positives, remaining_gt) =
     (case scan_remaining match extracted remaining_gt of
        (match_found, matched_gt) \<Rightarrow>
          if match_found then
            (case list_remove remaining_gt matched_gt of
               Inl e \<Rightarrow> Inl e
             | Inr remaining_gt' \<Rightarrow>
                 match_loop match rest (true_positives @ [extracted], false_positives, remaining_gt'))
          else match_loop match rest (true_positives, false_positives @ [extracted], remaining_gt))"

record 's metrics =
  precision :: rat
  recall :: rat
  tp :: "'s list"
  fp :: "'s list"
  fn :: "'s list"

definition calculate_metrics ::
  "('c list \<Rightarrow> 'c list) \<Rightarrow> BPMNEvaluator \<Rightarrow> 'c list list \<Rightarrow> 'c list list \<Rightarrow>
   py_error + 'c list metrics" where
  "calculate_metrics lower self ground_truth_list extracted_list =
     (case match_loop (is_match lower self) extracted_list ([], [], ground_truth_list) of
        Inl e \<Rightarrow> Inl e
      | Inr (true_positives, false_positives, remaining_gt) \<Rightarrow>
          let n_tp = length true_positives;
              n_fp = length false_positives;
              n_fn = length remaining_gt
          in case (if 0 < n_tp + n_fp then py_truediv n_tp (n_tp + n_fp) else Inr 0) of
               Inl e \<Rightarrow> Inl e
             | Inr prec \<Rightarrow>
                 (case (if 0 < n_tp + n_fn then py_truediv n_tp (n_tp + n_fn) else Inr 0) of
                    Inl e \<Rightarrow> Inl e
                  | Inr rec \<Rightarrow>
                      Inr \<lparr>precision = py_round prec 2, recall = py_round rec 2,
                           tp = true_positives, fp = false_positives, fn = remaining_gt\<rparr>))"

section \<open>The matching as the specification words it\<close>

text \<open>
  The matching of section 4.2 of the specification, in its words: for each extracted
  label, in order, the first label of \<open>remaining\<close> that passes the check is taken and
  removed, and the extracted label is a true positive; with no such label it is a false
  positive; what is left of \<open>remaining\<close> at the end are the false negatives.
\<close>

fun greedy_matching ::
  "('s \<Rightarrow> 's \<Rightarrow> bool) \<Rightarrow> 's list \<Rightarrow> 's list \<Rightarrow> 's list \<times> 's list \<times> 's list" where
  "greedy_matching check remaining [] = ([], [], remaining)"
| "greedy_matching check remaining (e # es) =
     (case dropWhile (\<lambda>g. \<not> check e g) remaining of
        [] \<Rightarrow>
          (case greedy_matching check remaining es of
             (tps, fps, fns) \<Rightarrow> (tps, e # fps, fns))
      | g # after \<Rightarrow>
          (case greedy_matching check (takeWhile (\<lambda>g. \<not> check e g) remaining @ after) es of
             (tps, fps, fns) \<Rightarrow> (e # tps, fps, fns)))"

section \<open>The code's loops compute the greedy matching\<close>

lemma scan_remaining_eq:
  "scan_remaining m e rem =
     (case dropWhile (\<lambda>g. \<not> m e g) rem of [] \<Rightarrow> (False, None) | g # after \<Rightarrow> (True, Some g))"
  by (induction rem) auto

lemma list_remove_first:
  "\<forall>x\<in>set pre. x \<noteq> g \<Longrightarrow> list_remove (pre @ g # after) (Some g) = Inr (pre @ after)"
  by (induction pre) auto

lemma list_remove_matched:
  assumes "dropWhile (\<lambda>g. \<not> m e g) rem = g # after"
  shows "list_remove rem (Some g) = Inr (takeWhile (\<lambda>g. \<not> m e g) rem @ after)"
proof -
  have mg: "m e g" using assms by (metis dropWhile_eq_Cons_conv)
  have "\<forall>x\<in>set (takeWhile (\<lambda>g. \<not> m e g) rem). x \<noteq> g"
    using mg by (auto dest: set_takeWhileD)
  from list_remove_first[OF this, of after]
  show ?thesis using assms by (metis takeWhile_dropWhile_id)
qed

lemma match_loop_greedy:
  "match_loop m ex (tps, fps, rem) =
     (case greedy_matching m rem ex of (tps', fps', fns) \<Rightarrow> Inr (tps @ tps', fps @ fps', fns))"
proof (induction ex arbitrary: tps fps rem)
  case Nil
  show ?case by simp
next
  case (Cons e es)
  show ?case
  proof (cases "dropWhile (\<lambda>g. \<not> m e g) rem")
    case Nil
    have sc: "scan_remaining m e rem = (False, None)"
      by (simp only: scan_remaining_eq Nil list.case)
    obtain t f n where g: "greedy_matching m rem es = (t, f, n)"
      by (cases "greedy_matching m rem es") auto
    have "match_loop m (e # es) (tps, fps, rem) = match_loop m es (tps, fps @ [e], rem)"
      by (simp add: sc)
    also have "\<dots> = Inr (tps @ t, (fps @ [e]) @ f, n)"
      by (simp add: Cons.IH g)
    finally show ?thesis by (simp add: Nil g)
  next
    case (Cons g after)
    let ?rem' = "takeWhile (\<lambda>g. \<not> m e g) rem @ after"
    have sc: "scan_remaining m e rem = (True, Some g)"
      by (simp only: scan_remaining_eq Cons list.case)
    have lr: "list_remove rem (Some g) = Inr ?rem'"
      by (rule list_remove_matched[of m e rem g after, OF Cons])
    obtain t f n where gm: "greedy_matching m ?rem' es = (t, f, n)"
      by (cases "greedy_matching m ?rem' es") auto
    have "match_loop m (e # es) (tps, fps, rem) = match_loop m es (tps @ [e], fps, ?rem')"
      by (simp add: sc lr)
    also have "\<dots> = Inr ((tps @ [e]) @ t, fps @ f, n)"
      by (simp add: Cons.IH gm)
    finally show ?thesis by (simp add: Cons gm)
  qed
qed


lemma calculate_metrics_eq:
  "calculate_metrics lower self gt ex =
     (case greedy_matching (is_match lower self) gt ex of
        (t, f, n) \<Rightarrow>
          Inr \<lparr>precision =
                 py_round (if 0 < length t + length f
                           then fl (of_nat (length t) / of_nat (length t + length f)) else 0) 2,
               recall =
                 py_round (if 0 < length t + length n
                           then fl (of_nat (length t) / of_nat (length t + length n)) else 0) 2,
               tp = t, fp = f, fn = n\<rparr>)"
proof -
  obtain t f n where g: "greedy_matching (is_match lower self) gt ex = (t, f, n)"
    by (cases "greedy_matching (is_match lower self) gt ex") auto
  have ml: "match_loop (is_match lower self) ex ([], [], gt) = Inr (t, f, n)"
    by (simp add: match_loop_greedy g)
  show ?thesis
    by (simp add: calculate_metrics_def ml g py_truediv_def Let_def)
qed

lemma greedy_matching_lengths:
  "greedy_matching check rem ex = (t, f, n) \<Longrightarrow>
     length t + length f = length ex \<and> length t + length n = length rem"
proof (induction ex arbitrary: rem t f n)
  case Nil
  then show ?case by simp
next
  case (Cons e es)
  show ?case
  proof (cases "dropWhile (\<lambda>g. \<not> check e g) rem")
    case Nil
    obtain t' f' n' where g: "greedy_matching check rem es = (t', f', n')"
      by (cases "greedy_matching check rem es") auto
    from Cons.IH[OF g] Cons.prems show ?thesis by (auto simp: Nil g)
  next
    case (Cons g after)
    let ?rem' = "takeWhile (\<lambda>g. \<not> check e g) rem @ after"
    obtain t' f' n' where gm: "greedy_matching check ?rem' es = (t', f', n')"
      by (cases "greedy_matching check ?rem' es") auto
    have "length rem = Suc (length ?rem')"
      using arg_cong[OF takeWhile_dropWhile_id[of "\<lambda>g. \<not> check e g" rem], of length]
      by (simp add: Cons)
    with Cons.IH[OF gm] Cons.prems show ?thesis by (auto simp: Cons gm)
  qed
qed

lemma greedy_matching_subseq:
  "greedy_matching check rem ex = (t, f, n) \<Longrightarrow> subseq t ex \<and> subseq f ex \<and> subseq n rem"
proof (induction ex arbitrary: rem t f n)
  case Nil
  then show ?case by simp
next
  case (Cons e es)
  show ?case
  proof (cases "dropWhile (\<lambda>g. \<not> check e g) rem")
    case Nil
    obtain t' f' n' where g: "greedy_matching check rem es = (t', f', n')"
      by (cases "greedy_matching check rem es") auto
    from Cons.IH[OF g] Cons.prems show ?thesis by (auto simp: Nil g)
  next
    case (Cons g after)
    let ?pre = "takeWhile (\<lambda>g. \<not> check e g) rem"
    obtain t' f' n' where gm: "greedy_matching check (?pre @ after) es = (t', f', n')"
      by (cases "greedy_matching check (?pre @ after) es") auto
    have "rem = ?pre @ g # after"
      using takeWhile_dropWhile_id[of "\<lambda>g. \<not> check e g" rem] by (simp add: Cons)
    then have "subseq (?pre @ after) rem"
      by (metis list_emb_append_mono subseq_Cons' subseq_order.order_refl subseq_Cons2_iff list_emb_Cons)
    with Cons.IH[OF gm] Cons.prems show ?thesis
      by (auto simp: Cons gm intro: subseq_order.order_trans)
  qed
qed

lemma greedy_matching_mask:
  "greedy_matching check rem ex = (t, f, n) \<Longrightarrow>
     \<exists>mask. length mask = length ex \<and> t = map fst (filter snd (zip ex mask))
          \<and> f = map fst (filter (\<lambda>p. \<not> snd p) (zip ex mask))"
proof (induction ex arbitrary: rem t f n)
  case Nil
  then show ?case by simp
next
  case (Cons e es)
  show ?case
  proof (cases "dropWhile (\<lambda>g. \<not> check e g) rem")
    case Nil
    obtain t' f' n' where g: "greedy_matching check rem es = (t', f', n')"
      by (cases "greedy_matching check rem es") auto
    from Cons.IH[OF g] obtain mask where m: "length mask = length es"
      "t' = map fst (filter snd (zip es mask))" "f' = map fst (filter (\<lambda>p. \<not> snd p) (zip es mask))"
      by blast
    have "t = t'" "f = e # f'" using Cons.prems by (auto simp: Nil g)
    then show ?thesis using m by (intro exI[of _ "False # mask"]) simp
  next
    case (Cons g after)
    let ?pre = "takeWhile (\<lambda>g. \<not> check e g) rem"
    obtain t' f' n' where gm: "greedy_matching check (?pre @ after) es = (t', f', n')"
      by (cases "greedy_matching check (?pre @ after) es") auto
    from Cons.IH[OF gm] obtain mask where m: "length mask = length es"
      "t' = map fst (filter snd (zip es mask))" "f' = map fst (filter (\<lambda>p. \<not> snd p) (zip es mask))"
      by blast
    have "t = e # t'" "f = f'" using Cons.prems by (auto simp: Cons gm)
    then show ?thesis using m by (intro exI[of _ "True # mask"]) simp
  qed
qed

lemma greedy_matching_consumed:
  "greedy_matching check rem ex = (t, f, n) \<Longrightarrow>
     \<exists>ms. list_all2 check t ms \<and> mset ms + mset n = mset rem"
proof (induction ex arbitrary: rem t f n)
  case Nil
  then show ?case by simp
next
  case (Cons e es)
  show ?case
  proof (cases "dropWhile (\<lambda>g. \<not> check e g) rem")
    case Nil
    obtain t' f' n' where g: "greedy_matching check rem es = (t', f', n')"
      by (cases "greedy_matching check rem es") auto
    from Cons.IH[OF g] Cons.prems show ?thesis by (auto simp: Nil g)
  next
    case (Cons g after)
    let ?pre = "takeWhile (\<lambda>g. \<not> check e g) rem"
    obtain t' f' n' where gm: "greedy_matching check (?pre @ after) es = (t', f', n')"
      by (cases "greedy_matching check (?pre @ after) es") auto
    from Cons.IH[OF gm] obtain ms where ms: "list_all2 check t' ms"
      "mset ms + mset n' = mset (?pre @ after)" by blast
    have cg: "check e g" using Cons by (metis dropWhile_eq_Cons_conv)
    have "rem = ?pre @ g # after"
      using takeWhile_dropWhile_id[of "\<lambda>g. \<not> check e g" rem] by (simp add: Cons)
    then have "mset rem = add_mset g (mset (?pre @ after))"
      by (metis mset.simps(2) mset_append union_mset_add_mset_right)
    moreover have "t = e # t'" "n = n'" using Cons.prems by (auto simp: Cons gm)
    ultimately show ?thesis using ms cg by (intro exI[of _ "g # ms"]) simp
  qed
qed


lemma greedy_matching_no_ground_truth: "greedy_matching check [] ex = ([], ex, [])"
  by (induction ex) auto

section \<open>Facts about rounding\<close>

lemma fl_0: "fl 0 = 0"
  by (simp add: fl_def)

lemma round_half_even_of_int: "round_half_even (of_int z) = z"
  by (simp add: round_half_even_def)

lemma py_round_0: "py_round 0 n = 0"
  using round_half_even_of_int[of 0] by (simp add: py_round_def fl_0)

lemma bitlen_powi_bounds:
  assumes "0 < a"
  shows "(2::rat) powi (bitlen a - 1) \<le> of_int a" "of_int a < (2::rat) powi (bitlen a)"
proof -
  have b1: "1 \<le> bitlen a" using assms by (auto simp: bitlen_alt_def)
  from bitlen_bounds[OF assms] have lo: "2 ^ nat (bitlen a - 1) \<le> a" and hi: "a < 2 ^ nat (bitlen a)"
    by auto
  have "(of_int (2 ^ nat (bitlen a - 1)) :: rat) \<le> of_int a" using lo by (simp only: of_int_le_iff)
  then show "(2::rat) powi (bitlen a - 1) \<le> of_int a"
    using b1 by (simp add: power_int_nonneg_exp)
  have "(of_int a :: rat) < of_int (2 ^ nat (bitlen a))" using hi by (simp only: of_int_less_iff)
  then show "of_int a < (2::rat) powi (bitlen a)"
    using b1 by (simp add: power_int_nonneg_exp)
qed

lemma ilog2_bounds:
  assumes "0 < q"
  shows "2 powi (ilog2 q) \<le> q \<and> q < 2 powi (ilog2 q + 1)"
proof -
  obtain a b where ab: "quotient_of q = (a, b)" by (cases "quotient_of q") auto
  have bpos: "0 < b" using ab by (rule quotient_of_denom_pos)
  have q: "q = of_int a / of_int b" using ab by (rule quotient_of_div)
  have apos: "0 < a" using assms bpos q by (simp add: zero_less_divide_iff)
  let ?d = "bitlen a - bitlen b"
  note A = bitlen_powi_bounds[OF apos] and B = bitlen_powi_bounds[OF bpos]
  have bq: "(0::rat) < of_int b" using bpos by simp
  have lo: "2 powi (?d - 1) < q"
  proof -
    have "(2::rat) powi (?d - 1) * of_int b < 2 powi (?d - 1) * 2 powi (bitlen b)"
      using B(2) by (simp add: mult_strict_left_mono)
    also have "\<dots> = 2 powi (bitlen a - 1)"
      by (simp add: power_int_add[symmetric])
    also have "\<dots> \<le> of_int a" by (rule A(1))
    finally show ?thesis using bq by (simp add: q pos_less_divide_eq)
  qed
  have hi: "q < 2 powi (?d + 1)"
  proof -
    have "of_int a < (2::rat) powi (bitlen a)" by (rule A(2))
    also have "\<dots> = 2 powi (?d + 1) * 2 powi (bitlen b - 1)"
      by (simp add: power_int_add[symmetric])
    also have "\<dots> \<le> 2 powi (?d + 1) * of_int b"
      using B(1) by (simp add: mult_left_mono)
    finally show ?thesis using bq by (simp add: q pos_divide_less_eq)
  qed
  have il: "ilog2 q = (if 2 powi ?d \<le> q then ?d else ?d - 1)"
    by (simp add: ilog2_def ab Let_def)
  show ?thesis
  proof (cases "2 powi ?d \<le> q")
    case True
    then show ?thesis using hi il by simp
  next
    case False
    then show ?thesis using lo il by simp
  qed
qed

lemma two_powi_less_imp: "(2::rat) powi m < 2 powi n \<Longrightarrow> m < n"
  using power_int_increasing[of n m "2::rat"] by (cases "m < n") auto

lemma ilog2_unique:
  assumes "2 powi e \<le> q" "q < 2 powi (e + 1)"
  shows "ilog2 q = e"
proof -
  have qpos: "0 < q" using assms(1) by (rule less_le_trans[rotated]) simp
  note b = ilog2_bounds[OF qpos]
  have "(2::rat) powi e < 2 powi (ilog2 q + 1)" using assms(1) b by linarith
  then have 1: "e < ilog2 q + 1" by (rule two_powi_less_imp)
  have "(2::rat) powi (ilog2 q) < 2 powi (e + 1)" using assms(2) b by linarith
  then have 2: "ilog2 q < e + 1" by (rule two_powi_less_imp)
  from 1 2 show ?thesis by simp
qed


lemma ilog2_mono:
  assumes "0 < x" "x \<le> y"
  shows "ilog2 x \<le> ilog2 y"
proof -
  have "0 < y" using assms by simp
  from ilog2_bounds[OF assms(1)] ilog2_bounds[OF this] assms(2)
  have "(2::rat) powi (ilog2 x) < 2 powi (ilog2 y + 1)" by linarith
  then have "ilog2 x < ilog2 y + 1" by (rule two_powi_less_imp)
  then show ?thesis by simp
qed

lemma round_half_even_floor:
  "round_half_even x = \<lfloor>x\<rfloor> \<or> round_half_even x = \<lfloor>x\<rfloor> + 1"
  by (simp add: round_half_even_def Let_def)

lemma round_half_even_mono:
  assumes "x \<le> y"
  shows "round_half_even x \<le> round_half_even y"
proof (cases "\<lfloor>x\<rfloor> = \<lfloor>y\<rfloor>")
  case True
  have "x - of_int \<lfloor>x\<rfloor> \<le> y - of_int \<lfloor>y\<rfloor>" using assms True by simp
  then show ?thesis using True by (auto simp: round_half_even_def Let_def)
next
  case False
  then have "\<lfloor>x\<rfloor> < \<lfloor>y\<rfloor>" using floor_mono[OF assms] by simp
  moreover have "\<lfloor>y\<rfloor> \<le> round_half_even y" using round_half_even_floor[of y] by auto
  moreover have "round_half_even x \<le> \<lfloor>x\<rfloor> + 1" using round_half_even_floor[of x] by auto
  ultimately show ?thesis by linarith
qed

lemma round_half_even_le: "x \<le> of_int z \<Longrightarrow> round_half_even x \<le> z"
  using round_half_even_mono[of x "of_int z"] by (simp add: round_half_even_of_int)

lemma round_half_even_ge: "of_int z \<le> x \<Longrightarrow> z \<le> round_half_even x"
  using round_half_even_mono[of "of_int z" x] by (simp add: round_half_even_of_int)

lemma round_half_even_error: "\<bar>of_int (round_half_even x) - x\<bar> \<le> 1 / 2"
proof -
  have "of_int \<lfloor>x\<rfloor> \<le> x" "x < of_int \<lfloor>x\<rfloor> + 1" by linarith+
  then show ?thesis by (auto simp: round_half_even_def Let_def)
qed

text \<open>The unit in the last place of the floats in the binade of a positive \<open>q\<close>.\<close>

definition ulp :: "rat \<Rightarrow> rat" where
  "ulp q = 2 powi (max (ilog2 q) (- 1022) - 52)"

lemma ulp_pos: "0 < ulp q"
  by (simp add: ulp_def)

lemma fl_pos_eq: "0 < q \<Longrightarrow> fl q = of_int (round_half_even (q / ulp q)) * ulp q"
  by (simp add: fl_def ulp_def Let_def)

lemma fl_nonneg:
  assumes "0 \<le> q"
  shows "0 \<le> fl q"
proof (cases "q = 0")
  case True
  then show ?thesis by (simp add: fl_0)
next
  case False
  then have q: "0 < q" using assms by simp
  have "0 \<le> q / ulp q" using q ulp_pos[of q] by simp
  then have "0 \<le> round_half_even (q / ulp q)"
    using round_half_even_ge[of 0 "q / ulp q"] by simp
  then show ?thesis using ulp_pos[of q] by (simp add: fl_pos_eq[OF q])
qed

lemma fl_upper:
  assumes "0 < q"
  shows "fl q \<le> 2 powi (max (ilog2 q) (- 1022) + 1)"
proof -
  let ?E = "max (ilog2 q) (- 1022)"
  have "q < 2 powi (ilog2 q + 1)" using ilog2_bounds[OF assms] by simp
  also have "\<dots> \<le> 2 powi (?E + 1)" by (rule power_int_increasing) auto
  also have "\<dots> = 2 ^ 53 * ulp q"
    by (simp add: ulp_def power_int_diff power_int_add)
  finally have "q / ulp q \<le> of_int (2 ^ 53)" using ulp_pos[of q] by (simp add: pos_divide_le_eq)
  then have "round_half_even (q / ulp q) \<le> 2 ^ 53" by (rule round_half_even_le)
  then have "(of_int (round_half_even (q / ulp q)) :: rat) \<le> of_int (2 ^ 53)"
    by (simp only: of_int_le_iff)
  then have "of_int (round_half_even (q / ulp q)) * ulp q \<le> 2 ^ 53 * ulp q"
    using ulp_pos[of q] by (simp add: mult_right_mono)
  also have "\<dots> = 2 powi (?E + 1)"
    by (simp add: ulp_def power_int_diff power_int_add)
  finally show ?thesis by (simp add: fl_pos_eq[OF assms])
qed

lemma fl_lower:
  assumes "0 < q" "- 1022 \<le> ilog2 q"
  shows "2 powi (ilog2 q) \<le> fl q"
proof -
  have u: "ulp q = 2 powi (ilog2 q - 52)" using assms(2) by (simp add: ulp_def max_def)
  have "2 ^ 52 * ulp q = 2 powi (ilog2 q)" by (simp add: u power_int_diff)
  also have "\<dots> \<le> q" using ilog2_bounds[OF assms(1)] by simp
  finally have "of_int (2 ^ 52) \<le> q / ulp q" using ulp_pos[of q] by (simp add: pos_le_divide_eq)
  then have "2 ^ 52 \<le> round_half_even (q / ulp q)" by (rule round_half_even_ge)
  then have "(of_int (2 ^ 52) :: rat) \<le> of_int (round_half_even (q / ulp q))"
    by (simp only: of_int_le_iff)
  then have "2 ^ 52 * ulp q \<le> of_int (round_half_even (q / ulp q)) * ulp q"
    using ulp_pos[of q] by (simp add: mult_right_mono)
  moreover have "2 ^ 52 * ulp q = 2 powi (ilog2 q)" by (simp add: u power_int_diff)
  ultimately show ?thesis by (simp add: fl_pos_eq[OF assms(1)])
qed

lemma fl_mono:
  assumes "0 \<le> x" "x \<le> y"
  shows "fl x \<le> fl y"
proof (cases "x = 0")
  case True
  then show ?thesis using fl_nonneg[of y] assms by (simp add: fl_0)
next
  case False
  then have x: "0 < x" using assms by simp
  then have y: "0 < y" using assms by simp
  let ?Ex = "max (ilog2 x) (- 1022)" and ?Ey = "max (ilog2 y) (- 1022)"
  have le: "?Ex \<le> ?Ey" using ilog2_mono[OF x assms(2)] by simp
  show ?thesis
  proof (cases "?Ex = ?Ey")
    case True
    then have u: "ulp x = ulp y" by (simp add: ulp_def)
    have "x / ulp y \<le> y / ulp y" using assms(2) ulp_pos[of y] by (simp add: divide_right_mono)
    then have "round_half_even (x / ulp y) \<le> round_half_even (y / ulp y)"
      by (rule round_half_even_mono)
    then have "(of_int (round_half_even (x / ulp y)) :: rat) \<le> of_int (round_half_even (y / ulp y))"
      by (simp only: of_int_le_iff)
    then show ?thesis using ulp_pos[of y]
      by (simp add: fl_pos_eq[OF x] fl_pos_eq[OF y] u mult_right_mono)
  next
    case False
    then have lt: "?Ex + 1 \<le> ?Ey" using le by simp
    then have n: "- 1022 \<le> ilog2 y" "?Ey = ilog2 y" by (auto simp: max_def split: if_splits)
    have "fl x \<le> 2 powi (?Ex + 1)" by (rule fl_upper[OF x])
    also have "\<dots> \<le> 2 powi (ilog2 y)" using lt n(2) by (intro power_int_increasing) auto
    also have "\<dots> \<le> fl y" by (rule fl_lower[OF y n(1)])
    finally show ?thesis .
  qed
qed

lemma ilog2_1: "ilog2 1 = 0"
  by (rule ilog2_unique) auto

lemma fl_1: "fl 1 = 1"
proof -
  have u: "ulp 1 = 2 powi (- 52)" by (simp add: ulp_def ilog2_1)
  have "(1::rat) / ulp 1 = of_int (2 ^ 52)" by (simp add: u power_int_minus_divide)
  then have "round_half_even (1 / ulp 1) = 2 ^ 52" by (simp only: round_half_even_of_int)
  then show ?thesis using fl_pos_eq[of 1] by (simp add: u power_int_minus_divide)
qed

lemma fl_unit_interval: "0 \<le> q \<Longrightarrow> q \<le> 1 \<Longrightarrow> 0 \<le> fl q \<and> fl q \<le> 1"
  using fl_nonneg[of q] fl_mono[of q 1] by (simp add: fl_1)

lemma fl_double:
  assumes "1 \<le> q"
  shows "fl (2 * q) = 2 * fl q"
proof -
  have q: "0 < q" using assms by simp
  have "ilog2 1 \<le> ilog2 q" by (rule ilog2_mono) (use assms in auto)
  then have n: "0 \<le> ilog2 q" by (simp add: ilog2_1)
  have i2: "ilog2 (2 * q) = ilog2 q + 1"
  proof (rule ilog2_unique)
    show "2 powi (ilog2 q + 1) \<le> 2 * q"
      using ilog2_bounds[OF q] by (simp add: power_int_add)
    show "2 * q < 2 powi (ilog2 q + 1 + 1)"
      using ilog2_bounds[OF q] by (simp add: power_int_add)
  qed
  have u: "ulp (2 * q) = 2 * ulp q"
    using n by (simp add: ulp_def i2 max_def power_int_add power_int_diff)
  have "fl (2 * q) = of_int (round_half_even (2 * q / ulp (2 * q))) * ulp (2 * q)"
    by (rule fl_pos_eq) (use q in simp)
  also have "\<dots> = of_int (round_half_even (q / ulp q)) * (2 * ulp q)"
    by (simp add: u)
  also have "\<dots> = 2 * fl q" by (simp add: fl_pos_eq[OF q])
  finally show ?thesis .
qed

lemma fl_representable:
  assumes "0 < m" "m \<le> 2 ^ 53" "- 1074 \<le> e"
  shows "fl (of_int m * 2 powi e) = of_int m * 2 powi e"
proof -
  let ?y = "of_int m * (2::rat) powi e"
  have mq: "(0::rat) < of_int m" using assms(1) by simp
  have y: "0 < ?y" using mq by simp
  have "?y \<le> of_int (2 ^ 53) * 2 powi e"
    using assms(2) by (intro mult_right_mono) (simp_all only: of_int_le_iff zero_le_power_int zero_le_numeral)
  also have "\<dots> = 2 powi (e + 53)" by (simp add: power_int_add)
  finally have yle: "?y \<le> 2 powi (e + 53)" .
  have il: "ilog2 ?y \<le> e + 53"
  proof -
    have "2 powi (ilog2 ?y) \<le> ?y" using ilog2_bounds[OF y] by simp
    also have "\<dots> < 2 powi (e + 53 + 1)"
      using yle power_int_strict_increasing[of "e + 53" "e + 53 + 1" "2::rat"] by simp
    finally have "ilog2 ?y < e + 53 + 1" by (rule two_powi_less_imp)
    then show ?thesis by simp
  qed
  define E where "E = max (ilog2 ?y) (- 1022)"
  have u: "ulp ?y = 2 powi (E - 52)" by (simp add: ulp_def E_def)
  have Ele: "E \<le> e + 53" using il assms(3) by (simp add: E_def)
  have "\<exists>z. ?y / ulp ?y = of_int z"
  proof (cases "E = e + 53")
    case True
    then have "ilog2 ?y = e + 53" using assms(3) by (simp add: E_def max_def split: if_splits)
    then have "2 powi (e + 53) \<le> ?y" using ilog2_bounds[OF y] by simp
    then have yeq: "?y = 2 powi (e + 53)" using yle by simp
    have "?y / ulp ?y = ?y / 2 powi (E - 52)" by (simp only: u)
    also have "\<dots> = 2 powi (e + 53) / 2 powi (E - 52)" by (simp only: yeq)
    also have "\<dots> = 2 powi (e + 53 - (E - 52))" by (rule power_int_diff[symmetric]) simp
    also have "\<dots> = of_int (2 ^ 52)" using True by simp
    finally show ?thesis by blast
  next
    case False
    then have "0 \<le> e - (E - 52)" using Ele by simp
    then obtain n where n: "e - (E - 52) = int n" using nonneg_int_cases by blast
    have "?y / ulp ?y = of_int m * 2 powi (e - (E - 52))" by (simp add: u power_int_diff)
    also have "\<dots> = of_int (m * 2 ^ n)" by (simp add: n)
    finally show ?thesis by blast
  qed
  then obtain z where z: "?y / ulp ?y = of_int z" by blast
  have "fl ?y = of_int (round_half_even (?y / ulp ?y)) * ulp ?y" by (rule fl_pos_eq[OF y])
  also have "\<dots> = (?y / ulp ?y) * ulp ?y" by (simp only: z round_half_even_of_int)
  also have "\<dots> = ?y" using ulp_pos[of ?y] by simp
  finally show ?thesis .
qed

lemma fl_idem:
  assumes "0 \<le> q"
  shows "fl (fl q) = fl q"
proof (cases "q = 0")
  case True
  then show ?thesis by (simp add: fl_0)
next
  case False
  then have q: "0 < q" using assms by simp
  let ?m = "round_half_even (q / ulp q)"
  have f: "fl q = of_int ?m * ulp q" by (rule fl_pos_eq[OF q])
  have m0: "0 \<le> ?m" using round_half_even_ge[of 0 "q / ulp q"] q ulp_pos[of q] by simp
  show ?thesis
  proof (cases "?m = 0")
    case True
    then show ?thesis by (simp add: f fl_0)
  next
    case False
    then have mpos: "0 < ?m" using m0 by simp
    have "fl q \<le> 2 powi (max (ilog2 q) (- 1022) + 1)" by (rule fl_upper[OF q])
    also have "\<dots> = of_int (2 ^ 53) * ulp q" by (simp add: ulp_def power_int_diff power_int_add)
    finally have "of_int ?m * ulp q \<le> of_int (2 ^ 53) * ulp q" by (simp only: f)
    then have "(of_int ?m :: rat) \<le> of_int (2 ^ 53)" using ulp_pos[of q]
      by (simp only: mult_le_cancel_right_pos)
    then have m53: "?m \<le> 2 ^ 53" by (simp only: of_int_le_iff)
    have e: "- 1074 \<le> max (ilog2 q) (- 1022) - 52" by simp
    show ?thesis
      unfolding f using fl_representable[OF mpos m53 e] by (simp add: ulp_def)
  qed
qed

lemma fl_of_nat_ge_1: "1 \<le> n \<Longrightarrow> 1 \<le> fl (of_nat n)"
proof -
  assume "1 \<le> n"
  then have "(1::rat) \<le> of_nat n" by simp
  then have "fl 1 \<le> fl (of_nat n)" by (intro fl_mono) simp_all
  then show ?thesis by (simp only: fl_1)
qed

lemma fl_twice_of_nat: "fl (2 * fl (of_nat m)) = fl (of_nat (2 * m))"
proof (cases "m = 0")
  case True
  then show ?thesis by (simp add: fl_0)
next
  case False
  then have m1: "1 \<le> fl (of_nat m)" by (intro fl_of_nat_ge_1) simp
  have "(1::rat) \<le> of_nat m" using False by simp
  then have d1: "fl (2 * of_nat m) = 2 * fl (of_nat m)" by (rule fl_double)
  have "fl (2 * fl (of_nat m)) = 2 * fl (fl (of_nat m))" using m1 by (rule fl_double)
  also have "\<dots> = 2 * fl (of_nat m)" by (simp only: fl_idem[of "of_nat m", simplified])
  also have "\<dots> = fl (2 * of_nat m)" by (simp only: d1)
  also have "(2 * of_nat m :: rat) = of_nat (2 * m)" by simp
  finally show ?thesis .
qed

lemma calculate_ratio_full:
  assumes "0 < n"
  shows "calculate_ratio n (n + n) = 1"
proof -
  have t1: "1 \<le> fl (of_nat (2 * n))" using assms by (intro fl_of_nat_ge_1) simp
  have nn: "n + n = 2 * n" by simp
  have "calculate_ratio n (n + n) = fl (fl (of_nat (2 * n)) / fl (of_nat (2 * n)))"
    using assms unfolding calculate_ratio_def nn fl_twice_of_nat by simp
  also have "fl (of_nat (2 * n)) / fl (of_nat (2 * n)) = 1" using t1 by simp
  finally show ?thesis by (simp only: fl_1)
qed

lemma calculate_ratio_unit:
  assumes "2 * m \<le> t"
  shows "0 \<le> calculate_ratio m t \<and> calculate_ratio m t \<le> 1"
proof (cases "t = 0")
  case True
  then show ?thesis by (simp add: calculate_ratio_def)
next
  case False
  then have t1: "1 \<le> fl (of_nat t)" by (intro fl_of_nat_ge_1) simp
  have "(of_nat (2 * m) :: rat) \<le> of_nat t" using assms by (simp only: of_nat_le_iff)
  then have le: "fl (of_nat (2 * m)) \<le> fl (of_nat t)" by (intro fl_mono) simp_all
  have ge: "0 \<le> fl (of_nat (2 * m))" by (intro fl_nonneg) simp
  let ?q = "fl (of_nat (2 * m)) / fl (of_nat t)"
  have "0 \<le> ?q" using ge t1 by simp
  moreover have "?q \<le> 1" using le t1 by (simp add: divide_le_eq_1)
  ultimately have "0 \<le> fl ?q \<and> fl ?q \<le> 1" by (rule fl_unit_interval)
  moreover have "calculate_ratio m t = fl ?q"
    using False unfolding calculate_ratio_def fl_twice_of_nat by simp
  ultimately show ?thesis by simp
qed

section \<open>The two scores\<close>

text \<open>
  The two scores before rounding, as the specification defines them: the quotient, in
  floating point, or 0.0 when the denominator is 0.
\<close>

definition guarded_quotient :: "nat \<Rightarrow> nat \<Rightarrow> rat" where
  "guarded_quotient n d = (if d = 0 then 0 else fl (of_nat n / of_nat d))"

lemma guarded_quotient_unit: "n \<le> d \<Longrightarrow> 0 \<le> guarded_quotient n d \<and> guarded_quotient n d \<le> 1"
  using fl_unit_interval[of "of_nat n / of_nat d"]
  by (simp add: guarded_quotient_def divide_le_eq_1)

lemma py_round_two_places:
  assumes "0 \<le> p" "p \<le> 1"
  shows "\<exists>k::nat. k \<le> 100 \<and> py_round p 2 = fl (of_nat k / 100) \<and> \<bar>of_nat k / 100 - p\<bar> \<le> 1 / 200"
proof -
  let ?z = "round_half_even (p * 10 ^ 2)"
  have "of_int 0 \<le> p * 10 ^ 2" using assms(1) by simp
  then have z0: "0 \<le> ?z" by (rule round_half_even_ge)
  have "p * 10 ^ 2 \<le> of_int 100" using assms(2) by simp
  then have z100: "?z \<le> 100" by (rule round_half_even_le)
  have e: "\<bar>of_int ?z - p * 10 ^ 2\<bar> \<le> 1 / 2" by (rule round_half_even_error)
  have kz: "(of_nat (nat ?z) :: rat) = of_int ?z" using z0 by simp
  have "of_int ?z / 100 - p = (of_int ?z - p * 10 ^ 2) / 100" by simp
  then have "\<bar>of_int ?z / 100 - p\<bar> = \<bar>of_int ?z - p * 10 ^ 2\<bar> / 100"
    by (simp only: abs_divide)
  also have "\<dots> \<le> 1 / 200" using e by simp
  finally have c: "\<bar>of_nat (nat ?z) / 100 - p\<bar> \<le> 1 / 200" by (simp only: kz)
  have "py_round p 2 = fl (of_nat (nat ?z) / 100)"
    by (simp only: py_round_def kz) simp
  moreover have "nat ?z \<le> 100" using z100 by simp
  ultimately show ?thesis using c by blast
qed

lemma py_round_1: "py_round 1 2 = 1"
  using round_half_even_of_int[of 100] by (simp add: py_round_def fl_1)

lemma calculate_metrics_scores:
  "\<exists>r. calculate_metrics lower self gt ex = Inr r
     \<and> precision r = py_round (guarded_quotient (length (tp r)) (length (tp r) + length (fp r))) 2
     \<and> recall r = py_round (guarded_quotient (length (tp r)) (length (tp r) + length (fn r))) 2"
proof -
  obtain t f n where g: "greedy_matching (is_match lower self) gt ex = (t, f, n)"
    by (cases "greedy_matching (is_match lower self) gt ex") auto
  let ?r = "\<lparr>precision = py_round (guarded_quotient (length t) (length t + length f)) 2,
             recall = py_round (guarded_quotient (length t) (length t + length n)) 2,
             tp = t, fp = f, fn = n\<rparr>"
  have "calculate_metrics lower self gt ex = Inr ?r"
    by (simp add: calculate_metrics_eq g guarded_quotient_def)
  then show ?thesis by (intro exI[of _ ?r]) simp
qed

lemma greedy_matching_same:
  assumes "\<And>x. check x x"
  shows "greedy_matching check xs xs = (xs, [], [])"
  by (induction xs) (simp_all add: assms)

section \<open>Facts about the matcher\<close>

subsection \<open>Identical sequences\<close>

text \<open>The positions of \<open>x\<close> in \<open>b\<close>, in increasing order.\<close>

definition positions :: "'c list \<Rightarrow> 'c \<Rightarrow> nat list" where
  "positions b x = map fst (filter (\<lambda>p. snd p = x) (enumerate 0 b))"

lemma b2j_get_setdefault_append:
  "b2j_get (setdefault_append elt i d) x = b2j_get d x @ (if x = elt then [i] else [])"
  by (induction d) (auto simp: b2j_get_def)

lemma b2j_get_fold:
  "b2j_get (fold (\<lambda>(i, elt) d. setdefault_append elt i d) (enumerate n xs) d) x =
     b2j_get d x @ map fst (filter (\<lambda>p. snd p = x) (enumerate n xs))"
proof (induction xs arbitrary: n d)
  case Nil
  show ?case by simp
next
  case (Cons y ys)
  show ?case by (simp add: Cons.IH b2j_get_setdefault_append)
qed

lemma b2j_get_Nil: "b2j_get [] x = []"
  by (simp add: b2j_get_def)

lemma b2j_get_filter:
  "b2j_get (filter (\<lambda>(elt, idxs). P elt) d) x = (if P x then b2j_get d x else [])"
  by (induction d) (auto simp: b2j_get_def)

lemma chain_b_get:
  "b2j_get (fst (chain_b b)) x = [] \<or> b2j_get (fst (chain_b b)) x = positions b x"
  by (simp add: chain_b_def Let_def b2j_get_filter b2j_get_fold b2j_get_Nil positions_def)

lemma chain_b_junk: "snd (chain_b b) = []"
  by (simp add: chain_b_def Let_def)

lemma set_positions: "set (positions b x) = {j. j < length b \<and> b ! j = x}"
  by (auto simp: positions_def in_set_enumerate_eq image_iff)

lemma sorted_positions: "sorted_wrt (<) (positions b x)"
proof -
  have "sorted_wrt (<) (map fst (enumerate 0 b))"
    by (simp add: map_fst_enumerate sorted_wrt_upt del: upt.simps)
  then have "sorted_wrt (\<lambda>p q. fst p < fst q) (enumerate 0 b)"
    by (simp only: sorted_wrt_map)
  then have "sorted_wrt (\<lambda>p q. fst p < fst q) (filter (\<lambda>p. snd p = x) (enumerate 0 b))"
    by (rule sorted_wrt_filter)
  then show ?thesis by (simp only: positions_def sorted_wrt_map)
qed


text \<open>
  What \<^verbatim>\<open>j2len\<close> holds: \<open>run a b d i j\<close> is the length of the longest run of equal
  elements, none of them dropped from \<^verbatim>\<open>b2j\<close>, that ends with \<open>a ! i\<close> and \<open>b ! j\<close>.
\<close>

definition cell_ok :: "'c list \<Rightarrow> 'c list \<Rightarrow> ('c \<times> nat list) list \<Rightarrow> nat \<Rightarrow> nat \<Rightarrow> bool" where
  "cell_ok a b d i j = (i < length a \<and> j < length b \<and> a ! i = b ! j \<and> b2j_get d (b ! j) \<noteq> [])"

fun run :: "'c list \<Rightarrow> 'c list \<Rightarrow> ('c \<times> nat list) list \<Rightarrow> nat \<Rightarrow> nat \<Rightarrow> nat" where
  "run a b d 0 j = (if cell_ok a b d 0 j then 1 else 0)"
| "run a b d (Suc i) 0 = (if cell_ok a b d (Suc i) 0 then 1 else 0)"
| "run a b d (Suc i) (Suc j) = (if cell_ok a b d (Suc i) (Suc j) then Suc (run a b d i j) else 0)"

definition rowmap ::
  "'c list \<Rightarrow> 'c list \<Rightarrow> ('c \<times> nat list) list \<Rightarrow> nat \<Rightarrow> nat \<Rightarrow> int \<Rightarrow> nat option" where
  "rowmap a b d i c z =
     (if 0 \<le> z \<and> nat z < c \<and> cell_ok a b d i (nat z) then Some (run a b d i (nat z)) else None)"

definition prev_row ::
  "'c list \<Rightarrow> 'c list \<Rightarrow> ('c \<times> nat list) list \<Rightarrow> nat \<Rightarrow> int \<Rightarrow> nat option" where
  "prev_row a b d i = (case i of 0 \<Rightarrow> Map.empty | Suc i' \<Rightarrow> rowmap a b d i' (length b))"

lemma run_zero: "\<not> cell_ok a b d i j \<Longrightarrow> run a b d i j = 0"
  by (cases i; cases j) simp_all

lemma run_pos: "cell_ok a b d i j \<Longrightarrow> 0 < run a b d i j"
  by (cases i; cases j) simp_all

lemma run_step:
  assumes "cell_ok a b d i j"
  shows "(case prev_row a b d i (int j - 1) of None \<Rightarrow> 0 | Some v \<Rightarrow> v) + 1 = run a b d i j"
proof (cases i)
  case 0
  then show ?thesis using assms by (simp add: prev_row_def)
next
  case (Suc i')
  show ?thesis
  proof (cases j)
    case 0
    then show ?thesis using assms Suc by (simp add: prev_row_def rowmap_def)
  next
    case (Suc j')
    have "int j - 1 = int j'" using Suc by simp
    then show ?thesis using assms Suc \<open>i = Suc i'\<close> run_zero[of a b d i' j']
      by (auto simp: prev_row_def rowmap_def cell_ok_def)
  qed
qed

lemma run_diag:
  "run s s d i j \<le> run s s d i i \<and> run s s d i j \<le> run s s d j j"
proof (induction i arbitrary: j)
  case 0
  show ?case
  proof (cases "cell_ok s s d 0 j")
    case True
    then have "cell_ok s s d 0 0" "cell_ok s s d j j" by (auto simp: cell_ok_def)
    then show ?thesis using True run_pos[of s s d j j] by simp
  next
    case False
    then show ?thesis by simp
  qed
next
  case (Suc i)
  show ?case
  proof (cases j)
    case 0
    show ?thesis
    proof (cases "cell_ok s s d (Suc i) 0")
      case True
      then have "cell_ok s s d 0 0" "cell_ok s s d (Suc i) (Suc i)" by (auto simp: cell_ok_def)
      then show ?thesis using True 0 by simp
    next
      case False
      then show ?thesis using 0 by simp
    qed
  next
    case (Suc j')
    show ?thesis
    proof (cases "cell_ok s s d (Suc i) (Suc j')")
      case True
      then have "cell_ok s s d (Suc i) (Suc i)" "cell_ok s s d (Suc j') (Suc j')"
        by (auto simp: cell_ok_def)
      then show ?thesis using True Suc Suc.IH[of j'] by simp
    next
      case False
      then show ?thesis using Suc by simp
    qed
  qed
qed

lemma b2j_row:
  assumes "\<forall>x. b2j_get d x = [] \<or> b2j_get d x = positions b x" "i < length a"
  shows "set (b2j_get d (a ! i)) = {j. cell_ok a b d i j}" "sorted_wrt (<) (b2j_get d (a ! i))"
proof -
  from assms(1) have c: "b2j_get d (a ! i) = [] \<or> b2j_get d (a ! i) = positions b (a ! i)" by blast
  show "sorted_wrt (<) (b2j_get d (a ! i))" using c sorted_positions[of b "a ! i"] by auto
  show "set (b2j_get d (a ! i)) = {j. cell_ok a b d i j}"
  proof (cases "b2j_get d (a ! i) = []")
    case True
    then show ?thesis by (auto simp: cell_ok_def)
  next
    case False
    then have "b2j_get d (a ! i) = positions b (a ! i)" using c by simp
    then show ?thesis using False assms(2) by (auto simp: set_positions cell_ok_def)
  qed
qed

lemma inner_loop_diag:
  assumes i: "i < length s"
    and srt: "sorted_wrt (<) js"
    and jsok: "\<forall>j\<in>set js. cell_ok s s d i j"
    and front: "\<forall>j. c \<le> j \<and> cell_ok s s d i j \<longrightarrow> j \<in> set js"
    and lower: "\<forall>j\<in>set js. c \<le> j"
    and M: "\<forall>i' j'. (i' < i \<or> (i' = i \<and> j' < c)) \<longrightarrow> run s s d i' j' \<le> bs"
  shows "\<exists>bd' bs'. inner_loop 0 (length s) (prev_row s s d i) i js (rowmap s s d i c, (bd, bd, bs))
           = (rowmap s s d i (length s), (bd', bd', bs'))
         \<and> (\<forall>i' j'. i' \<le> i \<longrightarrow> run s s d i' j' \<le> bs')"
  using srt jsok front lower M
proof (induction js arbitrary: c bd bs)
  case Nil
  have "rowmap s s d i c = rowmap s s d i (length s)"
  proof
    fix z
    show "rowmap s s d i c z = rowmap s s d i (length s) z"
      using Nil.prems(3) by (auto simp: rowmap_def cell_ok_def)
  qed
  moreover have "\<forall>i' j'. i' \<le> i \<longrightarrow> run s s d i' j' \<le> bs"
  proof (intro allI impI)
    fix i' j' assume "i' \<le> i"
    show "run s s d i' j' \<le> bs"
    proof (cases "i' < i \<or> j' < c")
      case True
      then show ?thesis using Nil.prems(5) \<open>i' \<le> i\<close> by (metis le_neq_implies_less)
    next
      case False
      then have "i' = i" "c \<le> j'" using \<open>i' \<le> i\<close> by auto
      then have "\<not> cell_ok s s d i' j'" using Nil.prems(3) by auto
      then show ?thesis by (simp add: run_zero)
    qed
  qed
  ultimately show ?case by simp
next
  case (Cons j js)
  have ok: "cell_ok s s d i j" using Cons.prems(2) by simp
  then have jlt: "j < length s" by (simp add: cell_ok_def)
  have gt: "\<forall>j'\<in>set js. j < j'" using Cons.prems(1) by simp
  define k where "k = run s s d i j"
  have kpos: "0 < k" using ok by (simp add: k_def run_pos)
  have kstep: "(case prev_row s s d i (int j - 1) of None \<Rightarrow> 0 | Some v \<Rightarrow> v) + 1 = k"
    unfolding k_def by (rule run_step[OF ok])
  have cj: "c \<le> j" using Cons.prems(4) by simp
  have gap: "\<not> cell_ok s s d i j'" if "c \<le> j'" "j' < j" for j'
  proof
    assume "cell_ok s s d i j'"
    then have "j' \<in> set (j # js)" using Cons.prems(3) that(1) by blast
    then show False using that(2) gt by auto
  qed
  have rm: "(rowmap s s d i c)(int j \<mapsto> k) = rowmap s s d i (Suc j)"
  proof
    fix z
    show "((rowmap s s d i c)(int j \<mapsto> k)) z = rowmap s s d i (Suc j) z"
    proof (cases "z = int j")
      case True
      then show ?thesis using ok by (simp add: rowmap_def k_def)
    next
      case False
      then have "nat z \<noteq> j \<or> z < 0" by arith
      then show ?thesis using False gap[of "nat z"] cj by (auto simp: rowmap_def)
    qed
  qed
  define bd' where "bd' = (if bs < k then i + 1 - k else bd)"
  define bs' where "bs' = (if bs < k then k else bs)"
  have diag: "(if bs < k then (i + 1 - k, j + 1 - k, k) else (bd, bd, bs)) = (bd', bd', bs')"
  proof (cases "bs < k")
    case True
    have "i = j"
    proof (rule ccontr)
      assume ne: "i \<noteq> j"
      show False
      proof (cases "j < i")
        case True
        then have "run s s d j j \<le> bs" using Cons.prems(5) by blast
        then show False using run_diag[of s d i j] \<open>bs < k\<close> by (simp add: k_def)
      next
        case False
        then have ij: "i < j" using ne by simp
        have "cell_ok s s d i i" using ok i by (auto simp: cell_ok_def)
        then have "i < c" using gap[of i] ij by (cases "c \<le> i") auto
        then have "run s s d i i \<le> bs" using Cons.prems(5) by blast
        then show False using run_diag[of s d i j] \<open>bs < k\<close> by (simp add: k_def)
      qed
    qed
    then show ?thesis using True by (simp add: bd'_def bs'_def)
  next
    case False
    then show ?thesis by (simp add: bd'_def bs'_def)
  qed
  have step: "inner_loop 0 (length s) (prev_row s s d i) i (j # js) (rowmap s s d i c, (bd, bd, bs))
      = inner_loop 0 (length s) (prev_row s s d i) i js (rowmap s s d i (Suc j), (bd', bd', bs'))"
  proof -
    have "inner_loop 0 (length s) (prev_row s s d i) i (j # js) (rowmap s s d i c, (bd, bd, bs))
      = inner_loop 0 (length s) (prev_row s s d i) i js
          ((rowmap s s d i c)(int j \<mapsto> k),
           if bs < k then (i + 1 - k, j + 1 - k, k) else (bd, bd, bs))"
      using jlt by (simp only: inner_loop.simps Let_def kstep) simp
    then show ?thesis by (simp only: rm diag)
  qed
  have p1: "sorted_wrt (<) js" using Cons.prems(1) by simp
  have p2: "\<forall>j\<in>set js. cell_ok s s d i j" using Cons.prems(2) by simp
  have p3: "\<forall>j'. Suc j \<le> j' \<and> cell_ok s s d i j' \<longrightarrow> j' \<in> set js"
  proof (intro allI impI)
    fix j' assume h: "Suc j \<le> j' \<and> cell_ok s s d i j'"
    then have "j' \<in> set (j # js)" using Cons.prems(3) cj by (metis Suc_leD le_trans)
    then show "j' \<in> set js" using h by auto
  qed
  have p4: "\<forall>j'\<in>set js. Suc j \<le> j'" using gt by auto
  have p5: "\<forall>i' j'. (i' < i \<or> (i' = i \<and> j' < Suc j)) \<longrightarrow> run s s d i' j' \<le> bs'"
  proof (intro allI impI)
    fix i' j' assume h: "i' < i \<or> (i' = i \<and> j' < Suc j)"
    have bsle: "bs \<le> bs'" by (simp add: bs'_def)
    show "run s s d i' j' \<le> bs'"
    proof (cases "i' < i \<or> (i' = i \<and> j' < c)")
      case True
      then have "run s s d i' j' \<le> bs" using Cons.prems(5) by blast
      then show ?thesis using bsle by simp
    next
      case False
      then have e: "i' = i" "c \<le> j'" "j' \<le> j" using h by auto
      show ?thesis
      proof (cases "j' = j")
        case True
        then show ?thesis using e by (simp add: bs'_def k_def)
      next
        case False
        then have "\<not> cell_ok s s d i j'" using gap[of j'] e by simp
        then show ?thesis using e by (simp add: run_zero)
      qed
    qed
  qed
  show ?case unfolding step by (rule Cons.IH[OF p1 p2 p3 p4 p5])
qed

lemma rowmap_0: "rowmap a b d i 0 = Map.empty"
  by (rule ext) (simp add: rowmap_def)

lemma outer_loop_diag:
  assumes D: "\<forall>x. b2j_get d x = [] \<or> b2j_get d x = positions s x"
    and "i \<le> length s"
    and "\<forall>i' j'. i' < i \<longrightarrow> run s s d i' j' \<le> bs"
  shows "\<exists>bd' bs'. outer_loop s d 0 (length s) [i..<length s] (prev_row s s d i, (bd, bd, bs))
           = (bd', bd', bs')"
  using assms(2,3)
proof (induction "length s - i" arbitrary: i bd bs)
  case 0
  then show ?case by simp
next
  case (Suc n)
  then have lt: "i < length s" by simp
  note row = b2j_row[OF D lt]
  have front: "\<forall>j. 0 \<le> j \<and> cell_ok s s d i j \<longrightarrow> j \<in> set (b2j_get d (s ! i))"
    using row(1) by simp
  have jsok: "\<forall>j\<in>set (b2j_get d (s ! i)). cell_ok s s d i j" using row(1) by simp
  have lower: "\<forall>j\<in>set (b2j_get d (s ! i)). 0 \<le> j" by simp
  have M: "\<forall>i' j'. (i' < i \<or> (i' = i \<and> j' < 0)) \<longrightarrow> run s s d i' j' \<le> bs"
    using Suc.prems(2) by simp
  from inner_loop_diag[OF lt row(2) jsok front lower M, of bd]
  obtain bd' bs' where il:
    "inner_loop 0 (length s) (prev_row s s d i) i (b2j_get d (s ! i)) (Map.empty, (bd, bd, bs))
       = (rowmap s s d i (length s), (bd', bd', bs'))"
    and M': "\<forall>i' j'. i' \<le> i \<longrightarrow> run s s d i' j' \<le> bs'"
    unfolding rowmap_0 by blast
  have pr: "prev_row s s d (Suc i) = rowmap s s d i (length s)" by (simp add: prev_row_def)
  have "length s - Suc i = n" using Suc.hyps(2) by simp
  then have "\<exists>bd'' bs''. outer_loop s d 0 (length s) [Suc i..<length s]
      (prev_row s s d (Suc i), (bd', bd', bs')) = (bd'', bd'', bs'')"
    using Suc.hyps(1)[of "Suc i" bs' bd'] lt M' by (simp add: less_Suc_eq_le)
  then show ?case using lt il by (simp add: upt_conv_Cons pr)
qed

lemma extend_left_diag:
  "extend_left (\<lambda>x. True) s s 0 0 (bd, bd, bs) = (0, 0, bs + bd)"
proof (induction bd arbitrary: bs)
  case 0
  show ?case by (subst extend_left.simps) simp
next
  case (Suc bd)
  show ?case by (subst extend_left.simps) (simp add: Suc)
qed

lemma extend_right_diag:
  "bs \<le> length s \<Longrightarrow> extend_right (\<lambda>x. True) s s (length s) (length s) (0, 0, bs) = (0, 0, length s)"
proof (induction "length s - bs" arbitrary: bs)
  case 0
  then show ?case by (subst extend_right.simps) simp
next
  case (Suc n)
  then have "extend_right (\<lambda>x. True) s s (length s) (length s) (0, 0, bs + 1) = (0, 0, length s)"
    by (intro Suc.hyps(1)) simp_all
  moreover have "bs < length s" using Suc.hyps(2) by simp
  ultimately show ?case by (subst extend_right.simps) simp
qed

lemma extend_left_never: "extend_left (\<lambda>x. False) a b alo blo best = best"
  by (cases best) (simp add: extend_left.simps)

lemma extend_right_never: "extend_right (\<lambda>x. False) a b ahi bhi best = best"
  by (cases best) (simp add: extend_right.simps)

lemma find_longest_match_same:
  "find_longest_match s s (chain_b s) 0 (length s) 0 (length s) = (0, 0, length s)"
proof -
  let ?d = "fst (chain_b s)"
  have D: "\<forall>x. b2j_get ?d x = [] \<or> b2j_get ?d x = positions s x" by (simp add: chain_b_get)
  have p0: "prev_row s s ?d 0 = Map.empty" by (simp add: prev_row_def)
  from outer_loop_diag[OF D, of 0 0 0] obtain bd bs where
    ol: "outer_loop s ?d 0 (length s) [0..<length s] (Map.empty, (0, 0, 0)) = (bd, bd, bs)"
    unfolding p0 by auto
  have "best_ok 0 (length s) 0 (length s) (bd, bd, bs)"
    using outer_loop_ok[of 0 0 "length s" 0 Map.empty "length s" "(0, 0, 0)" s ?d] ol
    by (simp add: row_ok_def best_ok_def)
  then have le: "bs + bd \<le> length s" by (auto simp: best_ok_def)
  have junk: "isbjunk (snd (chain_b s)) = (\<lambda>x. False)"
    by (rule ext) (simp add: isbjunk_def chain_b_junk)
  show ?thesis
    unfolding find_longest_match_def Let_def junk
    by (simp add: ol extend_left_diag extend_right_diag[OF le] extend_left_never extend_right_never)
qed

lemma ratio_same: "ratio s s = 1"
proof (cases "s = []")
  case True
  then show ?thesis by (simp add: ratio_def calculate_ratio_def Let_def)
next
  case False
  then have n: "0 < length s" by simp
  have "blocks_loop s s (chain_b s) [(0, length s, 0, length s)] [] = [(0, 0, length s)]"
    using n by (simp add: find_longest_match_same)
  then have "get_matching_blocks s s (chain_b s) = [(0, 0, length s), (length s, length s, 0)]"
    using n by (simp add: get_matching_blocks_def Let_def)
  then show ?thesis using n by (simp add: ratio_def Let_def calculate_ratio_full)
qed

subsection \<open>The ratio lies between 0 and 1\<close>

text \<open>The number of matched elements: the sum of the sizes of the blocks.\<close>

definition total_size :: "(nat \<times> nat \<times> nat) list \<Rightarrow> nat" where
  "total_size blocks = sum_list (map (\<lambda>(i, j, size). size) blocks)"

lemma total_size_simps:
  "total_size [] = 0" "total_size ((i, j, k) # bs) = k + total_size bs"
  "total_size (xs @ ys) = total_size xs + total_size ys"
  by (simp_all add: total_size_def)

text \<open>The lengths of the windows of \<^verbatim>\<open>a\<close> and of \<^verbatim>\<open>b\<close> in a queue entry.\<close>

fun span_a :: "nat \<times> nat \<times> nat \<times> nat \<Rightarrow> nat" where
  "span_a (alo, ahi, blo, bhi) = ahi - alo"

fun span_b :: "nat \<times> nat \<times> nat \<times> nat \<Rightarrow> nat" where
  "span_b (alo, ahi, blo, bhi) = bhi - blo"

declare blocks_loop.simps(2) [simp del]

lemma blocks_loop_total:
  "total_size (blocks_loop a b chain queue mb) \<le>
     total_size mb + sum_list (map span_a queue)
   \<and> total_size (blocks_loop a b chain queue mb) \<le>
     total_size mb + sum_list (map span_b queue)"
proof (induction a b chain queue mb rule: blocks_loop.induct)
  case (1 a b chain mb)
  show ?case by simp
next
  case (2 a b chain alo ahi blo bhi queue mb)
  obtain i j k where f: "find_longest_match a b chain alo ahi blo bhi = (i, j, k)"
    by (cases "find_longest_match a b chain alo ahi blo bhi") auto
  show ?case
  proof (cases "k = 0")
    case True
    have "blocks_loop a b chain ((alo, ahi, blo, bhi) # queue) mb = blocks_loop a b chain queue mb"
      using f True by (subst blocks_loop.simps) simp
    moreover have "total_size (blocks_loop a b chain queue mb) \<le>
        total_size mb + sum_list (map span_a queue)
      \<and> total_size (blocks_loop a b chain queue mb) \<le>
        total_size mb + sum_list (map span_b queue)"
      using 2(2)[of i "(j, k)" j k] f True by simp
    ultimately show ?thesis by simp
  next
    case False
    let ?Q = "(if i + k < ahi \<and> j + k < bhi then [(i + k, ahi, j + k, bhi)] else []) @
             (if alo < i \<and> blo < j then [(alo, i, blo, j)] else []) @ queue"
    from find_longest_match_range[OF f False]
    have r: "alo \<le> i" "i + k \<le> ahi" "blo \<le> j" "j + k \<le> bhi" by simp_all
    have step: "blocks_loop a b chain ((alo, ahi, blo, bhi) # queue) mb =
        blocks_loop a b chain ?Q (mb @ [(i, j, k)])"
      using f False by (subst blocks_loop.simps) simp
    have ih: "total_size (blocks_loop a b chain ?Q (mb @ [(i, j, k)])) \<le>
        total_size (mb @ [(i, j, k)]) + sum_list (map span_a ?Q)
      \<and> total_size (blocks_loop a b chain ?Q (mb @ [(i, j, k)])) \<le>
        total_size (mb @ [(i, j, k)]) + sum_list (map span_b ?Q)"
      using 2(1)[of i "(j, k)" j k] f False by simp
    have qa: "k + sum_list (map span_a ?Q) \<le>
        sum_list (map span_a ((alo, ahi, blo, bhi) # queue))"
      using r by auto
    have qb: "k + sum_list (map span_b ?Q) \<le>
        sum_list (map span_b ((alo, ahi, blo, bhi) # queue))"
      using r by auto
    have tm: "total_size (mb @ [(i, j, k)]) = total_size mb + k" by (simp add: total_size_simps)
    show ?thesis unfolding step using ih qa qb tm by linarith
  qed
qed

lemma total_size_sort: "total_size (sort blocks) = total_size blocks"
proof -
  have "mset (map (\<lambda>(i, j, size). size) (sort blocks)) = mset (map (\<lambda>(i, j, size). size) blocks)"
    by (simp only: mset_map mset_sort)
  then show ?thesis unfolding total_size_def by (metis sum_mset_sum_list)
qed

lemma total_size_collapse:
  "total_size (collapse blocks (i1, j1, k1) non_adjacent) =
     total_size non_adjacent + k1 + total_size blocks"
proof (induction blocks arbitrary: i1 j1 k1 non_adjacent)
  case Nil
  show ?case by (simp add: total_size_simps)
next
  case (Cons x xs)
  obtain i2 j2 k2 where x: "x = (i2, j2, k2)" by (cases x) auto
  show ?case by (simp add: x Cons total_size_simps)
qed

lemma matches_le:
  "total_size (get_matching_blocks a b chain) \<le> length a"
  "total_size (get_matching_blocks a b chain) \<le> length b"
  using blocks_loop_total[of a b chain "[(0, length a, 0, length b)]" "[]"]
  by (simp_all add: get_matching_blocks_def Let_def total_size_simps total_size_collapse
      total_size_sort)

lemma ratio_unit: "0 \<le> ratio a b \<and> ratio a b \<le> 1"
proof -
  have "2 * total_size (get_matching_blocks a b (chain_b b)) \<le> length a + length b"
    using matches_le[of a b "chain_b b"] by simp
  from calculate_ratio_unit[OF this] show ?thesis
    by (simp add: ratio_def Let_def total_size_def)
qed

text \<open>The two examples of the library's documentation.\<close>

lemma get_matching_blocks_example:
  "get_matching_blocks ''abxcd'' ''abcd'' (chain_b ''abcd'') = [(0, 0, 2), (3, 2, 2), (5, 4, 0)]"
  by code_simp

lemma ratio_example: "ratio ''abcd'' ''bcde'' = 3 / 4"
  by code_simp


subsection \<open>Identical labels and identical lists\<close>

lemma float_ge_1: "float_le t 1 \<Longrightarrow> float_ge 1 t"
  by (cases t) simp_all

lemma is_match_refl: "float_le (threshold self) 1 \<Longrightarrow> is_match lower self s s"
  by (simp add: is_match_def ratio_same float_ge_1)

lemma calculate_metrics_same:
  assumes "gt \<noteq> []" "float_le (threshold self) 1"
  shows "calculate_metrics lower self gt gt =
     Inr \<lparr>precision = 1, recall = 1, tp = gt, fp = [], fn = []\<rparr>"
proof -
  have g: "greedy_matching (is_match lower self) gt gt = (gt, [], [])"
    by (rule greedy_matching_same) (rule is_match_refl[OF assms(2)])
  have n: "0 < length gt" using assms(1) by simp
  then have "(of_nat (length gt) :: rat) / of_nat (length gt) = 1" by simp
  then show ?thesis using n by (simp add: calculate_metrics_eq g fl_1 py_round_1)
qed

section \<open>The evaluator on a store of list objects\<close>

text \<open>
  A Python list is a mutable object, passed by reference. To say that \<^verbatim>\<open>calculate_metrics\<close>
  leaves its arguments alone, the function is modelled a second time, on a store of list
  objects: a reference is an index into the store, \<^verbatim>\<open>[]\<close> and \<^verbatim>\<open>xs[:]\<close> allocate a new
  object at its end, \<^verbatim>\<open>append\<close> and \<^verbatim>\<open>remove\<close> update the object they are called on. Strings
  and floats are immutable and stay values.
\<close>

type_synonym 's store = "'s list list"

text \<open>Allocation of a list object with the given elements.\<close>

definition new_list :: "'s store \<Rightarrow> 's list \<Rightarrow> 's store \<times> nat" where
  "new_list h xs = (h @ [xs], length h)"

text \<open>\<^verbatim>\<open>r.append(x)\<close> and \<^verbatim>\<open>r.remove(x)\<close> on the object at reference \<open>r\<close>.\<close>

definition append_obj :: "'s store \<Rightarrow> nat \<Rightarrow> 's \<Rightarrow> 's store" where
  "append_obj h r x = h[r := h ! r @ [x]]"

definition remove_obj :: "'s store \<Rightarrow> nat \<Rightarrow> 's option \<Rightarrow> py_error + 's store" where
  "remove_obj h r x = (case list_remove (h ! r) x of Inl e \<Rightarrow> Inl e | Inr ys \<Rightarrow> Inr (h[r := ys]))"

text \<open>
  The loop \<^verbatim>\<open>for extracted in extracted_list\<close>: the iterator reads the list object at
  index \<open>i\<close> in the current store, so a list that grew while it is iterated would keep the
  loop running; \<open>None\<close> is the loop that does not return. The inner loop over
  \<^verbatim>\<open>remaining_gt\<close> writes nothing, so it is \<open>scan_remaining\<close> on that object's elements.
\<close>

partial_function (option) extracted_loop ::
  "('s \<Rightarrow> 's \<Rightarrow> bool) \<Rightarrow> nat \<Rightarrow> nat \<Rightarrow> nat \<Rightarrow> nat \<Rightarrow> nat \<Rightarrow> 's store \<Rightarrow>
   (py_error + 's store) option" where
  "extracted_loop match extracted_list true_positives false_positives remaining_gt i h =
     (if i < length (h ! extracted_list) then
        let extracted = h ! extracted_list ! i
        in case scan_remaining match extracted (h ! remaining_gt) of
             (match_found, matched_gt) \<Rightarrow>
               if match_found then
                 (case remove_obj (append_obj h true_positives extracted) remaining_gt matched_gt of
                    Inl e \<Rightarrow> Some (Inl e)
                  | Inr h' \<Rightarrow>
                      extracted_loop match extracted_list true_positives false_positives
                        remaining_gt (i + 1) h')
               else extracted_loop match extracted_list true_positives false_positives
                      remaining_gt (i + 1) (append_obj h false_positives extracted)
      else Some (Inr h))"

declare extracted_loop.simps [code]

text \<open>The returned dict: two floats and references to the three lists.\<close>

record metrics_refs =
  obj_precision :: rat
  obj_recall :: rat
  obj_tp :: nat
  obj_fp :: nat
  obj_fn :: nat

definition calculate_metrics_store ::
  "('c list \<Rightarrow> 'c list) \<Rightarrow> BPMNEvaluator \<Rightarrow> 'c list store \<Rightarrow> nat \<Rightarrow> nat \<Rightarrow>
   (py_error + 'c list store \<times> metrics_refs) option" where
  "calculate_metrics_store lower self h0 ground_truth_list extracted_list =
     (case new_list h0 [] of (h1, true_positives) \<Rightarrow>
      case new_list h1 [] of (h2, false_positives) \<Rightarrow>
      case new_list h2 (h2 ! ground_truth_list) of (h3, remaining_gt) \<Rightarrow>
      case extracted_loop (is_match lower self) extracted_list true_positives false_positives
             remaining_gt 0 h3 of
        None \<Rightarrow> None
      | Some (Inl e) \<Rightarrow> Some (Inl e)
      | Some (Inr h) \<Rightarrow>
          let n_tp = length (h ! true_positives);
              n_fp = length (h ! false_positives);
              n_fn = length (h ! remaining_gt)
          in case (if 0 < n_tp + n_fp then py_truediv n_tp (n_tp + n_fp) else Inr 0) of
               Inl e \<Rightarrow> Some (Inl e)
             | Inr prec \<Rightarrow>
                 (case (if 0 < n_tp + n_fn then py_truediv n_tp (n_tp + n_fn) else Inr 0) of
                    Inl e \<Rightarrow> Some (Inl e)
                  | Inr rec \<Rightarrow>
                      Some (Inr (h, \<lparr>obj_precision = py_round prec 2, obj_recall = py_round rec 2,
                                      obj_tp = true_positives, obj_fp = false_positives,
                                      obj_fn = remaining_gt\<rparr>))))"


subsection \<open>The store version computes what the value version computes\<close>

lemma store_nth:
  "r < length h0 \<Longrightarrow> (h0 @ [tps, fps, rem]) ! r = h0 ! r"
  "(h0 @ [tps, fps, rem]) ! length h0 = tps"
  "(h0 @ [tps, fps, rem]) ! (Suc (length h0)) = fps"
  "(h0 @ [tps, fps, rem]) ! (Suc (Suc (length h0))) = rem"
  by (simp_all add: nth_append)

lemma store_update:
  "(h0 @ [tps, fps, rem])[length h0 := x] = h0 @ [x, fps, rem]"
  "(h0 @ [tps, fps, rem])[Suc (length h0) := x] = h0 @ [tps, x, rem]"
  "(h0 @ [tps, fps, rem])[Suc (Suc (length h0)) := x] = h0 @ [tps, fps, x]"
  by (simp_all add: list_update_append)

lemma extracted_loop_eq:
  assumes "ex < length h0"
  shows "extracted_loop m ex (length h0) (Suc (length h0)) (Suc (Suc (length h0))) i (h0 @ [tps, fps, rem]) =
     Some (case match_loop m (drop i (h0 ! ex)) (tps, fps, rem) of
             Inl e \<Rightarrow> Inl e
           | Inr (t, f, n) \<Rightarrow> Inr (h0 @ [t, f, n]))"
proof (induction "length (h0 ! ex) - i" arbitrary: i tps fps rem)
  case 0
  then have "\<not> i < length (h0 ! ex)" by simp
  then show ?case using assms
    by (subst extracted_loop.simps) (simp add: store_nth)
next
  case (Suc k)
  then have lt: "i < length (h0 ! ex)" by simp
  let ?e = "h0 ! ex ! i"
  have dr: "drop i (h0 ! ex) = ?e # drop (Suc i) (h0 ! ex)"
    using lt by (simp add: Cons_nth_drop_Suc)
  have k: "k = length (h0 ! ex) - Suc i" using Suc.hyps(2) by simp
  obtain found matched where sc: "scan_remaining m ?e rem = (found, matched)"
    by (cases "scan_remaining m ?e rem") auto
  show ?case
  proof (cases found)
    case False
    have "extracted_loop m ex (length h0) (Suc (length h0)) (Suc (Suc (length h0))) i (h0 @ [tps, fps, rem]) =
        extracted_loop m ex (length h0) (Suc (length h0)) (Suc (Suc (length h0))) (Suc i)
          (h0 @ [tps, fps @ [?e], rem])"
      using lt assms sc False
      by (subst extracted_loop.simps) (simp add: store_nth store_update append_obj_def)
    also have "\<dots> = Some (case match_loop m (drop (Suc i) (h0 ! ex)) (tps, fps @ [?e], rem) of
             Inl e \<Rightarrow> Inl e | Inr (t, f, n) \<Rightarrow> Inr (h0 @ [t, f, n]))"
      by (rule Suc.hyps(1)[OF k])
    finally show ?thesis using sc False by (simp add: dr)
  next
    case True
    show ?thesis
    proof (cases "list_remove rem matched")
      case (Inl e)
      have "extracted_loop m ex (length h0) (Suc (length h0)) (Suc (Suc (length h0))) i (h0 @ [tps, fps, rem]) =
          Some (Inl e)"
        using lt assms sc True Inl
        by (subst extracted_loop.simps)
          (simp add: store_nth store_update append_obj_def remove_obj_def)
      then show ?thesis using sc True Inl by (simp add: dr)
    next
      case (Inr rem')
      have "extracted_loop m ex (length h0) (Suc (length h0)) (Suc (Suc (length h0))) i (h0 @ [tps, fps, rem]) =
          extracted_loop m ex (length h0) (Suc (length h0)) (Suc (Suc (length h0))) (Suc i)
            (h0 @ [tps @ [?e], fps, rem'])"
        using lt assms sc True Inr
        by (subst extracted_loop.simps)
          (simp add: store_nth store_update append_obj_def remove_obj_def)
      also have "\<dots> = Some (case match_loop m (drop (Suc i) (h0 ! ex)) (tps @ [?e], fps, rem') of
               Inl e \<Rightarrow> Inl e | Inr (t, f, n) \<Rightarrow> Inr (h0 @ [t, f, n]))"
        by (rule Suc.hyps(1)[OF k])
      finally show ?thesis using sc True Inr by (simp add: dr)
    qed
  qed
qed

lemma calculate_metrics_store_eq:
  assumes "gt < length h0" "ex < length h0"
    and "greedy_matching (is_match lower self) (h0 ! gt) (h0 ! ex) = (t, f, n)"
  shows "calculate_metrics_store lower self h0 gt ex =
     Some (Inr (h0 @ [t, f, n],
       \<lparr>obj_precision = py_round (guarded_quotient (length t) (length t + length f)) 2,
         obj_recall = py_round (guarded_quotient (length t) (length t + length n)) 2,
         obj_tp = length h0, obj_fp = Suc (length h0), obj_fn = Suc (Suc (length h0))\<rparr>))"
proof -
  have gtv: "(h0 @ [[], []]) ! gt = h0 ! gt" using assms(1) by (simp add: nth_append)
  have lp: "extracted_loop (is_match lower self) ex (length h0) (Suc (length h0)) (Suc (Suc (length h0))) 0
      (h0 @ [[], [], h0 ! gt]) = Some (Inr (h0 @ [t, f, n]))"
    using extracted_loop_eq[OF assms(2), of "is_match lower self" 0 "[]" "[]" "h0 ! gt"]
    by (simp add: match_loop_greedy assms(3))
  show ?thesis
    unfolding calculate_metrics_store_def new_list_def
    by (simp add: gtv lp store_nth Let_def py_truediv_def guarded_quotient_def)
qed


section \<open>An input on which the greedy matching is not a largest one\<close>

lemma greedy_not_optimal_example:
  "greedy_matching (is_match id \<lparr>threshold = Finite (1 / 2)\<rparr>) [''ab'', ''cb''] [''ab'', ''ad'']
     = ([''ab''], [''ad''], [''cb''])
   \<and> is_match id \<lparr>threshold = Finite (1 / 2)\<rparr> ''ab'' ''cb''
   \<and> is_match id \<lparr>threshold = Finite (1 / 2)\<rparr> ''ad'' ''ab''"
  by code_simp

section \<open>The claims\<close>

text \<open>
  C1. \<^verbatim>\<open>calculate_metrics\<close> is the greedy, order-dependent matching of the specification:
  it returns, without error, a result whose true positives, false positives and false
  negatives are those of \<open>greedy_matching\<close>, which handles the extracted labels in the
  order given, takes the first label of the remaining ground truth that passes the
  similarity check and removes it, counts an extracted label with no such partner as a
  false positive, and leaves as false negatives what remains at the end. The first match
  wins and no best assignment is sought: with threshold 0.5, ground truth \<^verbatim>\<open>ab\<close>, \<^verbatim>\<open>cb\<close>
  and extracted labels \<^verbatim>\<open>ab\<close>, \<^verbatim>\<open>ad\<close>, the first extracted label takes \<^verbatim>\<open>ab\<close> and the
  second is left a false positive, although \<^verbatim>\<open>ab\<close> matches \<^verbatim>\<open>cb\<close> and \<^verbatim>\<open>ad\<close> matches \<^verbatim>\<open>ab\<close>.
\<close>

theorem calculate_metrics_is_greedy:
  "(\<exists>r. calculate_metrics lower self gt ex = Inr r
      \<and> (tp r, fp r, fn r) = greedy_matching (is_match lower self) gt ex)
   \<and> (greedy_matching (is_match id \<lparr>threshold = Finite (1 / 2)\<rparr>) [''ab'', ''cb''] [''ab'', ''ad'']
        = ([''ab''], [''ad''], [''cb''])
      \<and> is_match id \<lparr>threshold = Finite (1 / 2)\<rparr> ''ab'' ''cb''
      \<and> is_match id \<lparr>threshold = Finite (1 / 2)\<rparr> ''ad'' ''ab'')"
proof -
  have "\<exists>r. calculate_metrics lower self gt ex = Inr r
      \<and> (tp r, fp r, fn r) = greedy_matching (is_match lower self) gt ex"
    by (simp add: calculate_metrics_eq split: prod.splits)
  from this greedy_not_optimal_example show ?thesis by (rule conjI)
qed

text \<open>
  C2. The similarity check is a function of its two strings and the threshold only: it
  is true exactly when the ratio of the two lower-cased strings is greater than or equal
  to the threshold. The ratio is the one \<^verbatim>\<open>SequenceMatcher\<close> computes from its matching
  blocks, \<open>2 * M / T\<close> in floating point with \<open>M\<close> the total size of the blocks and \<open>T\<close>
  the total length, or 1 for two empty strings, and lies between 0 and 1. It is not the
  edit-distance similarity: \<^verbatim>\<open>abcd\<close> and \<^verbatim>\<open>bcde\<close>, two edits apart on four characters,
  have ratio 0.75.
\<close>

theorem is_match_ratio_threshold:
  "is_match lower self str1 str2 = float_ge (ratio (lower str1) (lower str2)) (threshold self)
   \<and> 0 \<le> ratio (lower str1) (lower str2) \<and> ratio (lower str1) (lower str2) \<le> 1
   \<and> ratio a b =
       calculate_ratio (total_size (get_matching_blocks a b (chain_b b))) (length a + length b)
   \<and> ratio ''abcd'' ''bcde'' = 3 / 4"
proof -
  have "ratio a b =
      calculate_ratio (total_size (get_matching_blocks a b (chain_b b))) (length a + length b)"
    by (simp add: ratio_def Let_def total_size_def)
  then show ?thesis
    using ratio_unit[of "lower str1" "lower str2"] ratio_example
    by (simp only: is_match_def)
qed

text \<open>
  C3. With tp, fp and fn the numbers of true positives, false positives and false
  negatives of the result, the returned precision is tp / (tp + fp), or 0.0 when
  tp + fp = 0, and the returned recall is tp / (tp + fn), or 0.0 when tp + fn = 0, each
  rounded to two decimal places: each score is the float nearest to a decimal \<open>k / 100\<close>
  with \<open>0 \<le> k \<le> 100\<close>, and that decimal is within half a hundredth of the quotient.
\<close>

theorem calculate_metrics_precision_recall:
  "\<exists>r kp kr. calculate_metrics lower self gt ex = Inr r
     \<and> precision r = py_round (guarded_quotient (length (tp r)) (length (tp r) + length (fp r))) 2
     \<and> recall r = py_round (guarded_quotient (length (tp r)) (length (tp r) + length (fn r))) 2
     \<and> kp \<le> 100 \<and> precision r = fl (of_nat kp / 100)
     \<and> \<bar>of_nat kp / 100 - guarded_quotient (length (tp r)) (length (tp r) + length (fp r))\<bar> \<le> 1 / 200
     \<and> kr \<le> 100 \<and> recall r = fl (of_nat kr / 100)
     \<and> \<bar>of_nat kr / 100 - guarded_quotient (length (tp r)) (length (tp r) + length (fn r))\<bar> \<le> 1 / 200"
proof -
  obtain r where r: "calculate_metrics lower self gt ex = Inr r"
    "precision r = py_round (guarded_quotient (length (tp r)) (length (tp r) + length (fp r))) 2"
    "recall r = py_round (guarded_quotient (length (tp r)) (length (tp r) + length (fn r))) 2"
    using calculate_metrics_scores by blast
  let ?p = "guarded_quotient (length (tp r)) (length (tp r) + length (fp r))"
  let ?q = "guarded_quotient (length (tp r)) (length (tp r) + length (fn r))"
  have "0 \<le> ?p \<and> ?p \<le> 1" by (rule guarded_quotient_unit) simp
  then obtain kp :: nat where kp: "kp \<le> 100" "py_round ?p 2 = fl (of_nat kp / 100)"
    "\<bar>of_nat kp / 100 - ?p\<bar> \<le> 1 / 200" using py_round_two_places[of ?p] by blast
  have "0 \<le> ?q \<and> ?q \<le> 1" by (rule guarded_quotient_unit) simp
  then obtain kr :: nat where kr: "kr \<le> 100" "py_round ?q 2 = fl (of_nat kr / 100)"
    "\<bar>of_nat kr / 100 - ?q\<bar> \<le> 1 / 200" using py_round_two_places[of ?q] by blast
  show ?thesis
    using r kp kr by (intro exI[of _ r] exI[of _ kp] exI[of _ kr]) simp
qed

text \<open>
  C4. In the result of \<^verbatim>\<open>calculate_metrics\<close> every ground-truth label is consumed by at
  most one true positive: there is a list \<open>ms\<close> of ground-truth labels, one for each true
  positive and matching it, such that \<open>ms\<close> and the false negatives together are exactly
  the ground truth as a multiset. Every extracted label is exactly one of true positive
  and false positive: a mask of booleans over the extracted sequence selects the true
  positives, and its complement the false positives. There are never more true positives
  than ground-truth labels.
\<close>

theorem calculate_metrics_matching_invariant:
  "\<exists>r ms mask. calculate_metrics lower self gt ex = Inr r
     \<and> list_all2 (is_match lower self) (tp r) ms \<and> mset ms + mset (fn r) = mset gt
     \<and> length mask = length ex
     \<and> tp r = map fst (filter snd (zip ex mask))
     \<and> fp r = map fst (filter (\<lambda>p. \<not> snd p) (zip ex mask))
     \<and> length (tp r) \<le> length gt"
proof -
  obtain t f n where g: "greedy_matching (is_match lower self) gt ex = (t, f, n)"
    by (cases "greedy_matching (is_match lower self) gt ex") auto
  from greedy_matching_consumed[OF g] obtain ms where
    ms: "list_all2 (is_match lower self) t ms" "mset ms + mset n = mset gt" by blast
  from greedy_matching_mask[OF g] obtain mask where
    mask: "length mask = length ex" "t = map fst (filter snd (zip ex mask))"
      "f = map fst (filter (\<lambda>p. \<not> snd p) (zip ex mask))" by blast
  have len: "length t \<le> length gt" using greedy_matching_lengths[OF g] by simp
  obtain r where r: "calculate_metrics lower self gt ex = Inr r" "tp r = t" "fp r = f" "fn r = n"
    by (simp add: calculate_metrics_eq g)
  show ?thesis
    using r ms mask len by blast
qed

text \<open>
  C5. \<^verbatim>\<open>calculate_metrics\<close> never raises: for every two lists of labels, empty ones
  included, and every threshold, it returns a result. Neither \<^verbatim>\<open>list.remove\<close> nor the
  two divisions can fail.
\<close>

theorem calculate_metrics_total: "\<exists>r. calculate_metrics lower self gt ex = Inr r"
  by (simp add: calculate_metrics_eq split: prod.splits)

text \<open>
  C6, as amended. When the extracted list is the ground-truth list, the ground truth is
  not empty and the threshold is at most 1.0, \<^verbatim>\<open>calculate_metrics\<close> returns every label as
  a true positive, no false positive, no false negative, and precision and recall 1.0.
\<close>

theorem calculate_metrics_identical:
  "gt \<noteq> [] \<Longrightarrow> float_le (threshold self) 1 \<Longrightarrow>
   calculate_metrics lower self gt gt =
     Inr \<lparr>precision = 1, recall = 1, tp = gt, fp = [], fn = []\<rparr>"
  by (rule calculate_metrics_same)

theorem calculate_metrics_identical_witness:
  "[''Shipped'', ''Order is received''] \<noteq> []
   \<and> float_le (threshold \<lparr>threshold = Finite (7 / 10)\<rparr>) 1
   \<and> calculate_metrics id \<lparr>threshold = Finite (7 / 10)\<rparr>
        [''Shipped'', ''Order is received''] [''Shipped'', ''Order is received''] =
      Inr \<lparr>precision = 1, recall = 1, tp = [''Shipped'', ''Order is received''], fp = [], fn = []\<rparr>"
  using calculate_metrics_identical[of "[''Shipped'', ''Order is received'']"
      "\<lparr>threshold = Finite (7 / 10)\<rparr>" id]
  by simp

text \<open>
  C6 as stated fails for two empty lists: the guards against a division by zero make
  precision and recall 0.0, not 1.0.
\<close>

theorem calculate_metrics_empty_lists_scores:
  "float_le (threshold \<lparr>threshold = Finite (4 / 5)\<rparr>) 1
   \<and> calculate_metrics id \<lparr>threshold = Finite (4 / 5)\<rparr> [] ([] :: string list) =
      Inr \<lparr>precision = 0, recall = 0, tp = [], fp = [], fn = []\<rparr>
   \<and> (0 :: rat) \<noteq> 1"
  by (simp add: calculate_metrics_eq fl_0 py_round_0)

text \<open>
  C7. With no extracted label, \<^verbatim>\<open>calculate_metrics\<close> returns no true positive, no false
  positive, the whole ground truth as false negatives, and precision and recall 0.0.
  With no ground-truth label it returns no true positive, every extracted label as a
  false positive, no false negative, and precision and recall 0.0. Both hold for every
  other argument, so in particular for a non-empty one.
\<close>

theorem calculate_metrics_empty_inputs:
  "calculate_metrics lower self gt [] =
     Inr \<lparr>precision = 0, recall = 0, tp = [], fp = [], fn = gt\<rparr>
   \<and> calculate_metrics lower self [] ex =
     Inr \<lparr>precision = 0, recall = 0, tp = [], fp = ex, fn = []\<rparr>"
  by (simp add: calculate_metrics_eq greedy_matching_no_ground_truth fl_0 py_round_0)

text \<open>
  C8. For every string \<open>s\<close> and every threshold at most 1.0 (minus infinity included),
  the similarity check of \<open>s\<close> with itself is true: the ratio of a sequence with itself
  is 1, whatever its length and whichever of its elements the matcher drops as popular.
\<close>

theorem is_match_identical:
  "float_le (threshold self) 1 \<Longrightarrow> is_match lower self s s"
  by (rule is_match_refl)

theorem is_match_identical_witness:
  "float_le (threshold \<lparr>threshold = Finite (4 / 5)\<rparr>) 1
   \<and> is_match id \<lparr>threshold = Finite (4 / 5)\<rparr> ''Shipped'' ''Shipped''
   \<and> is_match id \<lparr>threshold = NegInf\<rparr> [] ([] :: string)"
  using is_match_identical[of "\<lparr>threshold = Finite (4 / 5)\<rparr>" id "''Shipped''"]
    is_match_identical[of "\<lparr>threshold = NegInf\<rparr>" id "[] :: string"]
  by simp

text \<open>
  C9. \<^verbatim>\<open>calculate_metrics\<close> does not change its arguments and gives the same result when
  called again. On every store and for every two references to list objects in it (the
  same object twice included) the call returns; every object that existed before the
  call, so the ground truth and the extracted list, is unchanged after it; the three
  lists of the result are new objects, whose elements are those of the value version of
  the function; a second call with the same arguments, on the store the first one left,
  changes no object either and returns the same scores and lists with the same elements.
\<close>

theorem calculate_metrics_store_frame:
  assumes "ground_truth_list < length h" "extracted_list < length h"
  shows "\<exists>h' r h'' r'.
      calculate_metrics_store lower self h ground_truth_list extracted_list = Some (Inr (h', r))
    \<and> take (length h) h' = h
    \<and> length h \<le> obj_tp r \<and> length h \<le> obj_fp r \<and> length h \<le> obj_fn r
    \<and> calculate_metrics lower self (h ! ground_truth_list) (h ! extracted_list) =
        Inr \<lparr>precision = obj_precision r, recall = obj_recall r,
             tp = h' ! obj_tp r, fp = h' ! obj_fp r, fn = h' ! obj_fn r\<rparr>
    \<and> calculate_metrics_store lower self h' ground_truth_list extracted_list = Some (Inr (h'', r'))
    \<and> take (length h') h'' = h'
    \<and> obj_precision r' = obj_precision r \<and> obj_recall r' = obj_recall r
    \<and> h'' ! obj_tp r' = h' ! obj_tp r \<and> h'' ! obj_fp r' = h' ! obj_fp r
    \<and> h'' ! obj_fn r' = h' ! obj_fn r"
proof -
  obtain t f n where
    g: "greedy_matching (is_match lower self) (h ! ground_truth_list) (h ! extracted_list) = (t, f, n)"
    by (cases "greedy_matching (is_match lower self) (h ! ground_truth_list) (h ! extracted_list)")
      auto
  let ?h' = "h @ [t, f, n]"
  let ?p = "py_round (guarded_quotient (length t) (length t + length f)) 2"
  let ?q = "py_round (guarded_quotient (length t) (length t + length n)) 2"
  let ?r = "\<lparr>obj_precision = ?p, obj_recall = ?q,
             obj_tp = length h, obj_fp = Suc (length h), obj_fn = Suc (Suc (length h))\<rparr>"
  let ?r' = "\<lparr>obj_precision = ?p, obj_recall = ?q,
             obj_tp = length ?h', obj_fp = Suc (length ?h'), obj_fn = Suc (Suc (length ?h'))\<rparr>"
  have first: "calculate_metrics_store lower self h ground_truth_list extracted_list =
      Some (Inr (?h', ?r))"
    by (rule calculate_metrics_store_eq[OF assms g])
  have same: "?h' ! ground_truth_list = h ! ground_truth_list"
    "?h' ! extracted_list = h ! extracted_list"
    using assms by (simp_all add: nth_append)
  have lt: "ground_truth_list < length ?h'" "extracted_list < length ?h'" using assms by simp_all
  have g': "greedy_matching (is_match lower self) (?h' ! ground_truth_list) (?h' ! extracted_list)
      = (t, f, n)"
    by (simp only: same g)
  have second: "calculate_metrics_store lower self ?h' ground_truth_list extracted_list =
      Some (Inr (?h' @ [t, f, n], ?r'))"
    by (rule calculate_metrics_store_eq[OF lt g'])
  have pure: "calculate_metrics lower self (h ! ground_truth_list) (h ! extracted_list) =
      Inr \<lparr>precision = ?p, recall = ?q, tp = t, fp = f, fn = n\<rparr>"
    by (simp add: calculate_metrics_eq g guarded_quotient_def)
  have cells: "?h' ! length h = t" "?h' ! Suc (length h) = f" "?h' ! Suc (Suc (length h)) = n"
    by (simp_all add: nth_append)
  have cells': "(?h' @ [t, f, n]) ! length ?h' = t" "(?h' @ [t, f, n]) ! Suc (length ?h') = f"
    "(?h' @ [t, f, n]) ! Suc (Suc (length ?h')) = n"
    by (simp_all only: store_nth)
  have sel: "obj_tp ?r = length h" "obj_fp ?r = Suc (length h)" "obj_fn ?r = Suc (Suc (length h))"
    "obj_tp ?r' = length ?h'" "obj_fp ?r' = Suc (length ?h')" "obj_fn ?r' = Suc (Suc (length ?h'))"
    "obj_precision ?r = ?p" "obj_recall ?r = ?q" "obj_precision ?r' = ?p" "obj_recall ?r' = ?q"
    by simp_all
  show ?thesis
  proof (rule exI[of _ ?h'], rule exI[of _ ?r], rule exI[of _ "?h' @ [t, f, n]"],
      rule exI[of _ ?r'], intro conjI)
    show "calculate_metrics_store lower self h ground_truth_list extracted_list = Some (Inr (?h', ?r))"
      by (rule first)
    show "take (length h) ?h' = h" by simp
    show "length h \<le> obj_tp ?r" "length h \<le> obj_fp ?r" "length h \<le> obj_fn ?r" by simp_all
    show "calculate_metrics lower self (h ! ground_truth_list) (h ! extracted_list) =
        Inr \<lparr>precision = obj_precision ?r, recall = obj_recall ?r,
             tp = ?h' ! obj_tp ?r, fp = ?h' ! obj_fp ?r, fn = ?h' ! obj_fn ?r\<rparr>"
      by (simp only: sel cells pure)
    show "calculate_metrics_store lower self ?h' ground_truth_list extracted_list =
        Some (Inr (?h' @ [t, f, n], ?r'))"
      by (rule second)
    show "take (length ?h') (?h' @ [t, f, n]) = ?h'" by simp
    show "obj_precision ?r' = obj_precision ?r" "obj_recall ?r' = obj_recall ?r" by simp_all
    show "(?h' @ [t, f, n]) ! obj_tp ?r' = ?h' ! obj_tp ?r"
      "(?h' @ [t, f, n]) ! obj_fp ?r' = ?h' ! obj_fp ?r"
      "(?h' @ [t, f, n]) ! obj_fn ?r' = ?h' ! obj_fn ?r"
      by (simp_all only: sel cells cells')
  qed
qed

theorem calculate_metrics_store_frame_witness:
  "(0::nat) < length [[''Shipped'', ''Order is received''], [''Shipped'', ''Unrelated item'']]
   \<and> (1::nat) < length [[''Shipped'', ''Order is received''], [''Shipped'', ''Unrelated item'']]
   \<and> (\<exists>h' r. calculate_metrics_store id \<lparr>threshold = Finite (7 / 10)\<rparr>
          [[''Shipped'', ''Order is received''], [''Shipped'', ''Unrelated item'']] 0 1
          = Some (Inr (h', r))
        \<and> take 2 h' = [[''Shipped'', ''Order is received''], [''Shipped'', ''Unrelated item'']])"
  using calculate_metrics_store_frame[of 0
      "[[''Shipped'', ''Order is received''], [''Shipped'', ''Unrelated item'']]" 1 id
      "\<lparr>threshold = Finite (7 / 10)\<rparr>"]
  by (auto simp: numeral_2_eq_2)

text \<open>
  C10. The result of \<^verbatim>\<open>calculate_metrics\<close> satisfies the counting identities: true and
  false positives together are as many as the extracted labels, true positives and false
  negatives together as many as the ground-truth labels. True positives and false
  positives are subsequences of the extracted sequence, the false negatives a subsequence
  of the ground truth, each in the original order.
\<close>

theorem calculate_metrics_counts_and_order:
  "\<exists>r. calculate_metrics lower self gt ex = Inr r
     \<and> length (tp r) + length (fp r) = length ex
     \<and> length (tp r) + length (fn r) = length gt
     \<and> subseq (tp r) ex \<and> subseq (fp r) ex \<and> subseq (fn r) gt"
proof -
  obtain t f n where g: "greedy_matching (is_match lower self) gt ex = (t, f, n)"
    by (cases "greedy_matching (is_match lower self) gt ex") auto
  obtain r where r: "calculate_metrics lower self gt ex = Inr r" "tp r = t" "fp r = f" "fn r = n"
    by (simp add: calculate_metrics_eq g)
  show ?thesis
    using r greedy_matching_lengths[OF g] greedy_matching_subseq[OF g] by auto
qed

end
